theory Spec2Isabelle
  imports Main "HOL-Library.Word"
begin

section \<open>JavaScript strings\<close>

text \<open>
  A JavaScript string is a finite sequence of 16-bit code units. The adapter in
  \<^verbatim>\<open>public/js/physicalweb-presentationmechanism.js\<close> concatenates strings, searches one
  (\<^verbatim>\<open>indexOf\<close>) and passes one through \<^verbatim>\<open>encodeURIComponent\<close>; all three are defined by
  ECMA-262 on code units, so that is what the model counts.
\<close>

type_synonym code_unit = "16 word"
type_synonym jsstring = "code_unit list"

text \<open>A string literal of the source (all of them are ASCII).\<close>

definition lit :: "string \<Rightarrow> jsstring" where
  "lit s = map (\<lambda>c. of_nat (of_char c)) s"

subsection \<open>String.prototype.indexOf\<close>

text \<open>
  \<^verbatim>\<open>s.indexOf(pat)\<close>: the smallest position at which \<^verbatim>\<open>pat\<close> occurs in \<^verbatim>\<open>s\<close>,
  or \<open>-1\<close> when there is none. \<open>indexOf_from\<close> scans the suffix of \<^verbatim>\<open>s\<close> that starts
  at position \<open>k\<close>.
\<close>

fun indexOf_from :: "jsstring \<Rightarrow> jsstring \<Rightarrow> int \<Rightarrow> int" where
  "indexOf_from [] pat k = (if pat = [] then k else - 1)"
| "indexOf_from (c # cs) pat k =
     (if take (length pat) (c # cs) = pat then k else indexOf_from cs pat (k + 1))"

definition indexOf :: "jsstring \<Rightarrow> jsstring \<Rightarrow> int" where
  "indexOf s pat = indexOf_from s pat 0"

text \<open>The words of the specification: a string \<^emph>\<open>contains\<close> another one.\<close>

definition contains :: "jsstring \<Rightarrow> jsstring \<Rightarrow> bool" where
  "contains s pat \<longleftrightarrow> (\<exists>pre post. s = pre @ pat @ post)"

subsection \<open>UTF-16 surrogates and code points\<close>

definition is_leading_surrogate :: "code_unit \<Rightarrow> bool" where
  "is_leading_surrogate c \<longleftrightarrow> 0xD800 \<le> unat c \<and> unat c \<le> 0xDBFF"

definition is_trailing_surrogate :: "code_unit \<Rightarrow> bool" where
  "is_trailing_surrogate c \<longleftrightarrow> 0xDC00 \<le> unat c \<and> unat c \<le> 0xDFFF"

definition UTF16SurrogatePairToCodePoint :: "code_unit \<Rightarrow> code_unit \<Rightarrow> nat" where
  "UTF16SurrogatePairToCodePoint lead trail =
     (unat lead - 0xD800) * 0x400 + (unat trail - 0xDC00) + 0x10000"

text \<open>
  ECMA-262 \<^verbatim>\<open>CodePointAt(string, position)\<close>, on the non-empty suffix \<open>first # rest\<close> of
  the string that starts at \<^verbatim>\<open>position\<close>.
\<close>

record code_point_record =
  CodePoint :: nat
  CodeUnitCount :: nat
  IsUnpairedSurrogate :: bool

definition CodePointAt :: "code_unit \<Rightarrow> jsstring \<Rightarrow> code_point_record" where
  "CodePointAt first rest =
     (if \<not> is_leading_surrogate first \<and> \<not> is_trailing_surrogate first then
        \<lparr>CodePoint = unat first, CodeUnitCount = 1, IsUnpairedSurrogate = False\<rparr>
      else if is_trailing_surrogate first \<or> rest = [] then
        \<lparr>CodePoint = unat first, CodeUnitCount = 1, IsUnpairedSurrogate = True\<rparr>
      else if \<not> is_trailing_surrogate (hd rest) then
        \<lparr>CodePoint = unat first, CodeUnitCount = 1, IsUnpairedSurrogate = True\<rparr>
      else
        \<lparr>CodePoint = UTF16SurrogatePairToCodePoint first (hd rest), CodeUnitCount = 2,
         IsUnpairedSurrogate = False\<rparr>)"

text \<open>A string is well formed when no surrogate in it is unpaired.\<close>

fun well_formed :: "jsstring \<Rightarrow> bool" where
  "well_formed [] = True"
| "well_formed (c # cs) =
     (if \<not> is_leading_surrogate c \<and> \<not> is_trailing_surrogate c then well_formed cs
      else if is_trailing_surrogate c then False
      else (case cs of [] \<Rightarrow> False | d # ds \<Rightarrow> is_trailing_surrogate d \<and> well_formed ds))"

subsection \<open>encodeURIComponent\<close>

datatype js_error =
    DOMException (message: jsstring) (name: jsstring)
  | URIError
  | ReferenceError

text \<open>The set \<^verbatim>\<open>uriUnreserved\<close>: ASCII letters, decimal digits and \<^verbatim>\<open>- _ . ! ~ * ' ( )\<close>.\<close>

definition uriUnreserved :: "code_unit \<Rightarrow> bool" where
  "uriUnreserved c \<longleftrightarrow>
     (0x41 \<le> unat c \<and> unat c \<le> 0x5A) \<or> (0x61 \<le> unat c \<and> unat c \<le> 0x7A) \<or>
     (0x30 \<le> unat c \<and> unat c \<le> 0x39) \<or>
     unat c \<in> {0x2D, 0x5F, 0x2E, 0x21, 0x7E, 0x2A, 0x27, 0x28, 0x29}"

text \<open>The UTF-8 octets of a code point.\<close>

definition utf8_octets :: "nat \<Rightarrow> nat list" where
  "utf8_octets cp =
     (if cp < 0x80 then [cp]
      else if cp < 0x800 then [0xC0 + cp div 0x40, 0x80 + cp mod 0x40]
      else if cp < 0x10000 then
        [0xE0 + cp div 0x1000, 0x80 + cp div 0x40 mod 0x40, 0x80 + cp mod 0x40]
      else
        [0xF0 + cp div 0x40000, 0x80 + cp div 0x1000 mod 0x40, 0x80 + cp div 0x40 mod 0x40,
         0x80 + cp mod 0x40])"

definition hex_digit :: "nat \<Rightarrow> code_unit" where
  "hex_digit d = (if d < 10 then of_nat (0x30 + d) else of_nat (0x41 + (d - 10)))"

text \<open>One octet as \<^verbatim>\<open>%XX\<close>, two upper-case hexadecimal digits.\<close>

definition percent_octet :: "nat \<Rightarrow> jsstring" where
  "percent_octet b = [0x25, hex_digit (b div 16), hex_digit (b mod 16)]"

text \<open>
  ECMA-262 \<^verbatim>\<open>Encode(string, extraUnescaped)\<close> with the empty \<^verbatim>\<open>extraUnescaped\<close> of
  \<^verbatim>\<open>encodeURIComponent\<close>: an unreserved code unit is copied, any other code point is
  replaced by its percent-encoded UTF-8 octets, and an unpaired surrogate throws
  \<^verbatim>\<open>URIError\<close>.
\<close>

fun Encode :: "jsstring \<Rightarrow> js_error + jsstring" where
  "Encode [] = Inr []"
| "Encode (c # cs) =
     (if uriUnreserved c then
        (case Encode cs of Inl e \<Rightarrow> Inl e | Inr r \<Rightarrow> Inr (c # r))
      else
        (let cp = CodePointAt c cs in
         if IsUnpairedSurrogate cp then Inl URIError
         else
           (case Encode (drop (CodeUnitCount cp - 1) cs) of
              Inl e \<Rightarrow> Inl e
            | Inr r \<Rightarrow> Inr (concat (map percent_octet (utf8_octets (CodePoint cp))) @ r))))"

definition encodeURIComponent :: "jsstring \<Rightarrow> js_error + jsstring" where
  "encodeURIComponent s = Encode s"

section \<open>Decoding a form-urlencoded body\<close>

text \<open>
  The specification speaks of the pairs a request body \<^emph>\<open>decodes to\<close>. The decoder below is
  that reading of the body, as a receiver of \<^verbatim>\<open>application/x-www-form-urlencoded\<close> data
  performs it: split at \<^verbatim>\<open>&\<close>, split each piece at its first \<^verbatim>\<open>=\<close>, turn \<^verbatim>\<open>+\<close> into a
  space and \<^verbatim>\<open>%XX\<close> into an octet, read the octets as UTF-8. It is strict: a malformed
  escape or octet sequence gives \<open>None\<close>. It is not part of the adapter.
\<close>

definition hex_value :: "code_unit \<Rightarrow> nat option" where
  "hex_value c =
     (if 0x30 \<le> unat c \<and> unat c \<le> 0x39 then Some (unat c - 0x30)
      else if 0x41 \<le> unat c \<and> unat c \<le> 0x46 then Some (unat c - 0x41 + 10)
      else if 0x61 \<le> unat c \<and> unat c \<le> 0x66 then Some (unat c - 0x61 + 10)
      else None)"

fun percent_decode :: "jsstring \<Rightarrow> nat list option" where
  "percent_decode [] = Some []"
| "percent_decode (c # cs) =
     (if c = 0x25 then
        (case cs of
           h # l # rest \<Rightarrow>
             (case (hex_value h, hex_value l) of
                (Some a, Some b) \<Rightarrow> map_option ((#) (16 * a + b)) (percent_decode rest)
              | _ \<Rightarrow> None)
         | _ \<Rightarrow> None)
      else if c = 0x2B then map_option ((#) 0x20) (percent_decode cs)
      else if unat c < 0x80 then map_option ((#) (unat c)) (percent_decode cs)
      else None)"

definition continuation :: "nat \<Rightarrow> bool" where
  "continuation b \<longleftrightarrow> 0x80 \<le> b \<and> b < 0xC0"

fun utf8_decode :: "nat list \<Rightarrow> nat list option" where
  "utf8_decode [] = Some []"
| "utf8_decode (b # bs) =
     (if b < 0x80 then map_option ((#) b) (utf8_decode bs)
      else if 0xC0 \<le> b \<and> b < 0xE0 then
        (case bs of
           b1 # rest \<Rightarrow>
             (let cp = (b - 0xC0) * 0x40 + (b1 - 0x80) in
              if continuation b1 \<and> 0x80 \<le> cp
              then map_option ((#) cp) (utf8_decode rest) else None)
         | _ \<Rightarrow> None)
      else if 0xE0 \<le> b \<and> b < 0xF0 then
        (case bs of
           b1 # b2 # rest \<Rightarrow>
             (let cp = (b - 0xE0) * 0x1000 + (b1 - 0x80) * 0x40 + (b2 - 0x80) in
              if continuation b1 \<and> continuation b2 \<and> 0x800 \<le> cp \<and>
                 \<not> (0xD800 \<le> cp \<and> cp \<le> 0xDFFF)
              then map_option ((#) cp) (utf8_decode rest) else None)
         | _ \<Rightarrow> None)
      else if 0xF0 \<le> b \<and> b < 0xF8 then
        (case bs of
           b1 # b2 # b3 # rest \<Rightarrow>
             (let cp = (b - 0xF0) * 0x40000 + (b1 - 0x80) * 0x1000 + (b2 - 0x80) * 0x40
                       + (b3 - 0x80) in
              if continuation b1 \<and> continuation b2 \<and> continuation b3 \<and>
                 0x10000 \<le> cp \<and> cp \<le> 0x10FFFF
              then map_option ((#) cp) (utf8_decode rest) else None)
         | _ \<Rightarrow> None)
      else None)"

definition utf16_units :: "nat \<Rightarrow> jsstring" where
  "utf16_units cp =
     (if cp < 0x10000 then [of_nat cp]
      else [of_nat (0xD800 + (cp - 0x10000) div 0x400),
            of_nat (0xDC00 + (cp - 0x10000) mod 0x400)])"

definition decode_component :: "jsstring \<Rightarrow> jsstring option" where
  "decode_component s =
     (case percent_decode s of
        None \<Rightarrow> None
      | Some bs \<Rightarrow>
          (case utf8_decode bs of
             None \<Rightarrow> None
           | Some cps \<Rightarrow> Some (concat (map utf16_units cps))))"

fun split_on :: "code_unit \<Rightarrow> jsstring \<Rightarrow> jsstring list" where
  "split_on sep [] = [[]]"
| "split_on sep (c # cs) =
     (if c = sep then [] # split_on sep cs
      else (case split_on sep cs of x # xs \<Rightarrow> (c # x) # xs | [] \<Rightarrow> [[c]]))"

fun decode_pairs :: "jsstring list \<Rightarrow> (jsstring \<times> jsstring) list option" where
  "decode_pairs [] = Some []"
| "decode_pairs (p # ps) =
     (if p = [] then decode_pairs ps
      else
        (case (decode_component (takeWhile (\<lambda>c. c \<noteq> 0x3D) p),
               decode_component (drop 1 (dropWhile (\<lambda>c. c \<noteq> 0x3D) p)),
               decode_pairs ps) of
           (Some n, Some v, Some r) \<Rightarrow> Some ((n, v) # r)
         | _ \<Rightarrow> None))"

definition form_urlencoded_decode :: "jsstring \<Rightarrow> (jsstring \<times> jsstring) list option" where
  "form_urlencoded_decode body = decode_pairs (split_on 0x26 body)"

text \<open>The code points of a string (ECMA-262 \<^verbatim>\<open>StringToCodePoints\<close>).\<close>

fun code_points :: "jsstring \<Rightarrow> nat list" where
  "code_points [] = []"
| "code_points (c # cs) =
     (let cp = CodePointAt c cs
      in CodePoint cp # code_points (drop (CodeUnitCount cp - 1) cs))"

definition scalar_value :: "nat \<Rightarrow> bool" where
  "scalar_value cp \<longleftrightarrow> cp < 0x110000 \<and> \<not> (0xD800 \<le> cp \<and> cp \<le> 0xDFFF)"

text \<open>What \<open>Encode\<close> emits for a code unit that is not a surrogate.\<close>

definition encode_unit :: "code_unit \<Rightarrow> jsstring" where
  "encode_unit c =
     (if uriUnreserved c then [c] else concat (map percent_octet (utf8_octets (unat c))))"

definition uri_safe :: "code_unit \<Rightarrow> bool" where
  "uri_safe c \<longleftrightarrow> uriUnreserved c \<or> c = 0x25"

text \<open>Header names are compared without regard to ASCII case.\<close>

definition ascii_lower :: "code_unit \<Rightarrow> code_unit" where
  "ascii_lower c = (if 0x41 \<le> unat c \<and> unat c \<le> 0x5A then c + 0x20 else c)"

fun get_header :: "jsstring \<Rightarrow> (jsstring \<times> jsstring) list \<Rightarrow> jsstring option" where
  "get_header n [] = None"
| "get_header n ((k, v) # hs) =
     (if map ascii_lower k = map ascii_lower n then Some v else get_header n hs)"

section \<open>The browser around the adapter\<close>

text \<open>
  The adapter runs in a page. What it touches there is kept in one record: the heap of the
  objects it constructs, the promises it creates, its \<^verbatim>\<open>XMLHttpRequest\<close> objects, the requests
  handed to the network, the console, and the three things it reads: \<^verbatim>\<open>window.location.search\<close>,
  the global binding \<^verbatim>\<open>url\<close> (there is none unless the page declares one) and the
  \<^verbatim>\<open>onincomingcontroller\<close> property of the mechanism.
\<close>

datatype object =
    PhysicalWebDisplay (display_name: jsstring)
  | PhysicalWebRemoteController

datatype jsvalue = Undefined | PromiseRef nat | Array "nat list"

datatype promise_state = Pending | Fulfilled jsvalue | Rejected js_error

text \<open>
  The two closures \<^verbatim>\<open>navigate\<close> installs on its request; each holds the \<^verbatim>\<open>resolve\<close> or
  \<^verbatim>\<open>reject\<close> function of the promise it was created in.
\<close>

datatype handler = navigate_onload nat | navigate_onerror nat

text \<open>
  A request object is \<open>UNSENT\<close> when constructed, \<open>OPENED\<close> after \<^verbatim>\<open>open\<close>, \<open>IN_FLIGHT\<close> from
  \<^verbatim>\<open>send\<close> until its response or failure is known, and \<open>DONE\<close> afterwards.
\<close>

datatype ready_state = UNSENT | OPENED | IN_FLIGHT | DONE

record xhr =
  readyState :: ready_state
  xhr_method :: jsstring
  xhr_url :: jsstring
  requestHeaders :: "(jsstring \<times> jsstring) list"
  onload :: "handler option"
  onerror :: "handler option"

record request =
  req_method :: jsstring
  req_url :: jsstring
  req_headers :: "(jsstring \<times> jsstring) list"
  req_body :: jsstring

record state =
  location_search :: jsstring
  global_url :: "jsstring option"
  onincomingcontroller :: bool
  heap :: "object list"
  promises :: "promise_state list"
  xhrs :: "xhr list"
  network :: "request list"
  console :: "jsstring list"
  incoming :: "nat list"

text \<open>
  \<open>global_url\<close> is what the identifier \<^verbatim>\<open>url\<close> evaluates to outside \<^verbatim>\<open>navigate\<close>: \<open>None\<close> when
  the reference cannot be resolved, otherwise the string the binding contributes to a
  concatenation. \<open>onincomingcontroller\<close> tells whether a callback is registered; \<open>incoming\<close>
  lists the controllers the callback has been called with, which is all the model keeps
  of a call to that external function.
\<close>

datatype outcome = Returned jsvalue | Threw js_error

subsection \<open>Objects, promises, console\<close>

definition new_object :: "object \<Rightarrow> state \<Rightarrow> nat \<times> state" where
  "new_object obj s = (length (heap s), s\<lparr>heap := heap s @ [obj]\<rparr>)"

definition new_promise :: "state \<Rightarrow> nat \<times> state" where
  "new_promise s = (length (promises s), s\<lparr>promises := promises s @ [Pending]\<rparr>)"

text \<open>\<^verbatim>\<open>resolve\<close> and \<^verbatim>\<open>reject\<close> act on a pending promise only.\<close>

definition settle :: "nat \<Rightarrow> promise_state \<Rightarrow> state \<Rightarrow> state" where
  "settle p st s =
     (if p < length (promises s) \<and> promises s ! p = Pending
      then s\<lparr>promises := (promises s)[p := st]\<rparr> else s)"

definition resolve :: "nat \<Rightarrow> jsvalue \<Rightarrow> state \<Rightarrow> state" where
  "resolve p v s = settle p (Fulfilled v) s"

definition reject :: "nat \<Rightarrow> js_error \<Rightarrow> state \<Rightarrow> state" where
  "reject p e s = settle p (Rejected e) s"

definition console_write :: "jsstring \<Rightarrow> state \<Rightarrow> state" where
  "console_write msg s = s\<lparr>console := console s @ [msg]\<rparr>"

subsection \<open>XMLHttpRequest\<close>

text \<open>
  The adapter calls \<^verbatim>\<open>open\<close>, \<^verbatim>\<open>setRequestHeader\<close> and \<^verbatim>\<open>send\<close> in this order on a request
  it has just constructed, so the state errors of these methods cannot occur and are not
  modelled; \<open>x\<close> is always the index of that request.
\<close>

definition new_XMLHttpRequest :: "state \<Rightarrow> nat \<times> state" where
  "new_XMLHttpRequest s =
     (length (xhrs s),
      s\<lparr>xhrs := xhrs s @ [\<lparr>readyState = UNSENT, xhr_method = [], xhr_url = [],
                              requestHeaders = [], onload = None, onerror = None\<rparr>]\<rparr>)"

definition update_xhr :: "nat \<Rightarrow> (xhr \<Rightarrow> xhr) \<Rightarrow> state \<Rightarrow> state" where
  "update_xhr x f s = s\<lparr>xhrs := (xhrs s)[x := f (xhrs s ! x)]\<rparr>"

definition xhr_open :: "nat \<Rightarrow> jsstring \<Rightarrow> jsstring \<Rightarrow> state \<Rightarrow> state" where
  "xhr_open x m u s =
     update_xhr x (\<lambda>r. r\<lparr>readyState := OPENED, xhr_method := m, xhr_url := u\<rparr>) s"

definition setRequestHeader :: "nat \<Rightarrow> jsstring \<Rightarrow> jsstring \<Rightarrow> state \<Rightarrow> state" where
  "setRequestHeader x k v s =
     update_xhr x (\<lambda>r. r\<lparr>requestHeaders := requestHeaders r @ [(k, v)]\<rparr>) s"

definition set_onload :: "nat \<Rightarrow> handler \<Rightarrow> state \<Rightarrow> state" where
  "set_onload x h s = update_xhr x (\<lambda>r. r\<lparr>onload := Some h\<rparr>) s"

definition set_onerror :: "nat \<Rightarrow> handler \<Rightarrow> state \<Rightarrow> state" where
  "set_onerror x h s = update_xhr x (\<lambda>r. r\<lparr>onerror := Some h\<rparr>) s"

text \<open>\<^verbatim>\<open>send\<close> hands the request to the network; the response comes later, as an event.\<close>

definition send :: "nat \<Rightarrow> jsstring \<Rightarrow> state \<Rightarrow> state" where
  "send x body s =
     (update_xhr x (\<lambda>r. r\<lparr>readyState := IN_FLIGHT\<rparr>) s)
       \<lparr>network := network s @
          [\<lparr>req_method = xhr_method (xhrs s ! x), req_url = xhr_url (xhrs s ! x),
            req_headers = requestHeaders (xhrs s ! x), req_body = body\<rparr>]\<rparr>"

section \<open>The adapter\<close>

subsection \<open>PhysicalWebRemoteController\<close>

text \<open>
  \<^verbatim>\<open>this.createDataChannel = function () { return new Promise(function (resolve, reject) {
  console.info(...); }); }\<close>: the executor logs and returns; it calls neither \<^verbatim>\<open>resolve\<close> nor
  \<^verbatim>\<open>reject\<close> and stores them nowhere.
\<close>

definition no_data_channel :: jsstring where
  "no_data_channel =
     lit ''no possible '' @ [0x22] @ lit ''native'' @ [0x22] @ lit '' data channel with Physical Web''"

definition controller_createDataChannel :: "state \<Rightarrow> outcome \<times> state" where
  "controller_createDataChannel s =
     (let (p, s1) = new_promise s;
          s2 = console_write no_data_channel s1
      in (Returned (PromiseRef p), s2))"

subsection \<open>PhysicalWebDisplay\<close>

definition beacon_endpoint :: jsstring where
  "beacon_endpoint = lit ''http://localhost:3000/api/beacon''"

text \<open>
  \<^verbatim>\<open>navigate(url)\<close>. The executor of the promise runs at once. The argument of \<^verbatim>\<open>send\<close> is
  evaluated before \<^verbatim>\<open>send\<close> is called, so when \<^verbatim>\<open>encodeURIComponent\<close> throws nothing is sent
  and \<^verbatim>\<open>onerror\<close> is never assigned; an exception that leaves an executor rejects its
  promise. \<^verbatim>\<open>onerror\<close> is assigned after \<^verbatim>\<open>send\<close>, which is soon enough: the events of a
  request are delivered after the running script has returned.
\<close>

definition navigate :: "jsstring \<Rightarrow> state \<Rightarrow> outcome \<times> state" where
  "navigate url s =
     (let (p, s1) = new_promise s;
          (x, s2) = new_XMLHttpRequest s1;
          s3 = xhr_open x (lit ''POST'') beacon_endpoint s2;
          s4 = setRequestHeader x (lit ''Content-type'')
                 (lit ''application/x-www-form-urlencoded'') s3;
          s5 = set_onload x (navigate_onload p) s4
      in case encodeURIComponent (url @ lit ''?p'') of
           Inl err \<Rightarrow> (Returned (PromiseRef p), reject p err s5)
         | Inr enc \<Rightarrow>
             (let s6 = send x (lit ''action=start&url='' @ enc) s5;
                  s7 = set_onerror x (navigate_onerror p) s6
              in (Returned (PromiseRef p), s7)))"

text \<open>
  The bodies of the two handlers. \<open>e\<close> is \<^verbatim>\<open>JSON.stringify\<close> of the event object the
  handler receives.
\<close>

fun call_handler :: "handler \<Rightarrow> jsstring \<Rightarrow> state \<Rightarrow> state" where
  "call_handler (navigate_onload p) e s = resolve p Undefined s"
| "call_handler (navigate_onerror p) e s =
     reject p (DOMException (lit ''Unable to start Bluetooth beacon: '' @ e)
                 (lit ''OperationError'')) s"

definition display_createDataChannel :: "state \<Rightarrow> outcome \<times> state" where
  "display_createDataChannel s =
     (let (p, s1) = new_promise s;
          s2 = console_write no_data_channel s1
      in (Returned (PromiseRef p), s2))"

text \<open>
  \<^verbatim>\<open>terminate()\<close>. Its \<^verbatim>\<open>url\<close> is not the parameter of \<^verbatim>\<open>navigate\<close>, which is local to that
  function: the identifier is free in \<^verbatim>\<open>terminate\<close>, in the constructor and in the module,
  so it is looked up in the global object. An unresolvable reference throws
  \<^verbatim>\<open>ReferenceError\<close>, after \<^verbatim>\<open>open\<close> and \<^verbatim>\<open>setRequestHeader\<close> and before \<^verbatim>\<open>send\<close>.
\<close>

definition terminate :: "state \<Rightarrow> outcome \<times> state" where
  "terminate s =
     (let (x, s1) = new_XMLHttpRequest s;
          s2 = xhr_open x (lit ''POST'') beacon_endpoint s1;
          s3 = setRequestHeader x (lit ''Content-type'')
                 (lit ''application/x-www-form-urlencoded'') s2
      in case global_url s3 of
           None \<Rightarrow> (Threw ReferenceError, s3)
         | Some url \<Rightarrow>
             (case encodeURIComponent (url @ lit ''?p'') of
                Inl err \<Rightarrow> (Threw err, s3)
              | Inr enc \<Rightarrow> (Returned Undefined, send x (lit ''action=stop&url='' @ enc) s3)))"

subsection \<open>PhysicalWebPresentationMechanism\<close>

definition beacon_display_name :: jsstring where
  "beacon_display_name = lit ''Broadcast the URL through a Physical Web beacon''"

text \<open>
  \<^verbatim>\<open>Display.call(this, name)\<close> is the constructor of the polyfill; it keeps the name on the
  object.
\<close>

definition getAvailableDisplays :: "state \<Rightarrow> outcome \<times> state" where
  "getAvailableDisplays s =
     (let (p, s1) = new_promise s;
          (d, s2) = new_object (PhysicalWebDisplay beacon_display_name) s1
      in (Returned (PromiseRef p), resolve p (Array [d]) s2))"

definition monitorIncomingControllers :: "state \<Rightarrow> outcome \<times> state" where
  "monitorIncomingControllers s =
     (if indexOf (location_search s) (lit ''?p'') = - 1 then
        (Returned Undefined,
         console_write (lit ''not running in a receiving context created by Physical Web'') s)
      else
        (let s1 = console_write
                    (lit ''running in a receiving context created by Physical Web'') s;
             (controller, s2) = new_object PhysicalWebRemoteController s1
         in if onincomingcontroller s2
            then (Returned Undefined, s2\<lparr>incoming := incoming s2 @ [controller]\<rparr>)
            else (Returned Undefined, s2)))"

section \<open>Runs of the page\<close>

text \<open>
  The events that end a request. Only a request in flight gets one, and it is \<open>DONE\<close>
  afterwards, so it gets at most one; \<open>Load\<close> carries the status code of the response and
  \<open>Error\<close> the serialised event. The adapter installs no handler for \<^verbatim>\<open>abort\<close> and
  \<^verbatim>\<open>timeout\<close>.
\<close>

datatype xhr_event = Load nat | Error jsstring | Abort | Timeout

definition fire :: "nat \<Rightarrow> xhr_event \<Rightarrow> state \<Rightarrow> state" where
  "fire x ev s =
     (if x < length (xhrs s) \<and> readyState (xhrs s ! x) = IN_FLIGHT then
        (let s1 = update_xhr x (\<lambda>r. r\<lparr>readyState := DONE\<rparr>) s
         in case ev of
              Load status \<Rightarrow>
                (case onload (xhrs s ! x) of None \<Rightarrow> s1 | Some h \<Rightarrow> call_handler h [] s1)
            | Error e \<Rightarrow>
                (case onerror (xhrs s ! x) of None \<Rightarrow> s1 | Some h \<Rightarrow> call_handler h e s1)
            | Abort \<Rightarrow> s1
            | Timeout \<Rightarrow> s1)
      else s)"

text \<open>
  Everything that can happen to the page: the calls the presentation framework makes on
  the mechanism, on a display and on a remote controller (none of the methods reads its
  receiver, which the operation names all the same), the events of the requests, and the
  page changing what the adapter reads.
\<close>

datatype operation =
    GetAvailableDisplays
  | MonitorIncomingControllers
  | Navigate nat jsstring
  | DisplayCreateDataChannel nat
  | Terminate nat
  | ControllerCreateDataChannel nat
  | XhrEvent nat xhr_event
  | SetOnIncomingController bool
  | SetLocationSearch jsstring
  | SetGlobalUrl "jsstring option"

fun step :: "state \<Rightarrow> operation \<Rightarrow> state" where
  "step s GetAvailableDisplays = snd (getAvailableDisplays s)"
| "step s MonitorIncomingControllers = snd (monitorIncomingControllers s)"
| "step s (Navigate d url) = snd (navigate url s)"
| "step s (DisplayCreateDataChannel d) = snd (display_createDataChannel s)"
| "step s (Terminate d) = snd (terminate s)"
| "step s (ControllerCreateDataChannel c) = snd (controller_createDataChannel s)"
| "step s (XhrEvent x ev) = fire x ev s"
| "step s (SetOnIncomingController b) = s\<lparr>onincomingcontroller := b\<rparr>"
| "step s (SetLocationSearch q) = s\<lparr>location_search := q\<rparr>"
| "step s (SetGlobalUrl g) = s\<lparr>global_url := g\<rparr>"

fun run :: "state \<Rightarrow> operation list \<Rightarrow> state" where
  "run s [] = s"
| "run s (a # as) = run (step s a) as"

text \<open>The page when the module has been loaded and the mechanism registered.\<close>

definition initial_state :: "jsstring \<Rightarrow> jsstring option \<Rightarrow> state" where
  "initial_state search g =
     \<lparr>location_search = search, global_url = g, onincomingcontroller = False, heap = [],
      promises = [], xhrs = [], network = [], console = [], incoming = []\<rparr>"

text \<open>The requests an operation adds to those already handed to the network.\<close>

definition issued :: "state \<Rightarrow> state \<Rightarrow> request list" where
  "issued s s' = drop (length (network s)) (network s')"

text \<open>The first event delivered to request \<open>x\<close> in a run.\<close>

fun first_event :: "nat \<Rightarrow> operation list \<Rightarrow> xhr_event option" where
  "first_event x [] = None"
| "first_event x (XhrEvent y ev # as) = (if y = x then Some ev else first_event x as)"
| "first_event x (a # as) = first_event x as"

text \<open>The promises a handler of a request can settle.\<close>

fun handler_promise :: "handler \<Rightarrow> nat" where
  "handler_promise (navigate_onload p) = p"
| "handler_promise (navigate_onerror p) = p"

definition xhr_promises :: "xhr \<Rightarrow> nat set" where
  "xhr_promises r = handler_promise ` (set_option (onload r) \<union> set_option (onerror r))"

text \<open>Every handler belongs to a promise that exists.\<close>

definition handlers_bound :: "state \<Rightarrow> bool" where
  "handlers_bound s \<longleftrightarrow> (\<forall>r\<in>set (xhrs s). \<forall>p\<in>xhr_promises r. p < length (promises s))"

text \<open>No request in flight has a handler for promise \<open>p\<close>.\<close>

definition detached :: "nat \<Rightarrow> state \<Rightarrow> bool" where
  "detached p s \<longleftrightarrow>
     p < length (promises s) \<and>
     (\<forall>r\<in>set (xhrs s). p \<in> xhr_promises r \<longrightarrow> readyState r \<noteq> IN_FLIGHT)"

section \<open>Auxiliary notions\<close>

text \<open>The request object and the request that \<^verbatim>\<open>navigate\<close> and \<^verbatim>\<open>terminate\<close> build.\<close>

definition start_xhr :: "nat \<Rightarrow> xhr" where
  "start_xhr p =
     \<lparr>readyState = IN_FLIGHT, xhr_method = lit ''POST'', xhr_url = beacon_endpoint,
      requestHeaders = [(lit ''Content-type'', lit ''application/x-www-form-urlencoded'')],
      onload = Some (navigate_onload p), onerror = Some (navigate_onerror p)\<rparr>"

definition beacon_request :: "jsstring \<Rightarrow> request" where
  "beacon_request body =
     \<lparr>req_method = lit ''POST'', req_url = beacon_endpoint,
      req_headers = [(lit ''Content-type'', lit ''application/x-www-form-urlencoded'')],
      req_body = body\<rparr>"

text \<open>
  Promise \<open>p\<close> is pending and request \<open>x\<close>, in flight, is the only request in flight
  that holds handlers for it: the situation \<^verbatim>\<open>navigate\<close> leaves behind.
\<close>

definition attached :: "nat \<Rightarrow> nat \<Rightarrow> state \<Rightarrow> bool" where
  "attached p x s \<longleftrightarrow>
     p < length (promises s) \<and> x < length (xhrs s) \<and> promises s ! p = Pending \<and>
     xhrs s ! x = start_xhr p \<and>
     (\<forall>y<length (xhrs s). y \<noteq> x \<longrightarrow> p \<in> xhr_promises (xhrs s ! y) \<longrightarrow>
        readyState (xhrs s ! y) \<noteq> IN_FLIGHT)"

text \<open>What the handlers of \<^verbatim>\<open>navigate\<close> make of the first event of its request.\<close>

definition event_outcome :: "xhr_event option \<Rightarrow> promise_state" where
  "event_outcome e =
     (case e of
        None \<Rightarrow> Pending
      | Some (Load status) \<Rightarrow> Fulfilled Undefined
      | Some (Error d) \<Rightarrow>
          Rejected (DOMException (lit ''Unable to start Bluetooth beacon: '' @ d)
                      (lit ''OperationError''))
      | Some Abort \<Rightarrow> Pending
      | Some Timeout \<Rightarrow> Pending)"

text \<open>
  A promise that was fulfilled with a list of displays holds exactly one reference, to a
  display of heap \<open>h\<close> that carries the name given in \<^verbatim>\<open>getAvailableDisplays\<close>.
\<close>

definition single_display :: "object list \<Rightarrow> promise_state \<Rightarrow> bool" where
  "single_display h v \<longleftrightarrow>
     (\<forall>ds. v = Fulfilled (Array ds) \<longrightarrow>
        (\<exists>d. ds = [d] \<and> d < length h \<and> h ! d = PhysicalWebDisplay beacon_display_name))"

text \<open>A rejected promise holds a \<^verbatim>\<open>URIError\<close> or a \<^verbatim>\<open>DOMException\<close> named \<^verbatim>\<open>OperationError\<close>.\<close>

definition known_rejection :: "promise_state \<Rightarrow> bool" where
  "known_rejection v \<longleftrightarrow>
     (\<forall>err. v = Rejected err \<longrightarrow>
        err = URIError \<or> (\<exists>m. err = DOMException m (lit ''OperationError'')))"

section \<open>Encoding and decoding\<close>

lemma surrogate_disjoint: "is_leading_surrogate c \<Longrightarrow> \<not> is_trailing_surrogate c"
  by (simp add: is_leading_surrogate_def is_trailing_surrogate_def)

lemma unreserved_not_surrogate:
  "uriUnreserved c \<Longrightarrow> \<not> is_leading_surrogate c \<and> \<not> is_trailing_surrogate c"
  by (auto simp: uriUnreserved_def is_leading_surrogate_def is_trailing_surrogate_def)

lemma Encode_plain:
  "\<not> is_leading_surrogate c \<Longrightarrow> \<not> is_trailing_surrogate c \<Longrightarrow>
   Encode (c # cs) = (case Encode cs of Inl e \<Rightarrow> Inl e | Inr r \<Rightarrow> Inr (encode_unit c @ r))"
  by (simp add: CodePointAt_def encode_unit_def split: sum.splits)

lemma Encode_trailing: "is_trailing_surrogate c \<Longrightarrow> Encode (c # cs) = Inl URIError"
  using unreserved_not_surrogate [of c] by (auto simp: CodePointAt_def)

lemma Encode_leading_end: "is_leading_surrogate c \<Longrightarrow> Encode [c] = Inl URIError"
  using unreserved_not_surrogate [of c] by (auto simp: CodePointAt_def)

lemma Encode_leading_unpaired:
  "is_leading_surrogate c \<Longrightarrow> \<not> is_trailing_surrogate d \<Longrightarrow> Encode (c # d # ds) = Inl URIError"
  using unreserved_not_surrogate [of c] by (auto simp: CodePointAt_def)

lemma Encode_pair:
  "is_leading_surrogate c \<Longrightarrow> is_trailing_surrogate d \<Longrightarrow>
   Encode (c # d # ds) =
     (case Encode ds of
        Inl e \<Rightarrow> Inl e
      | Inr r \<Rightarrow> Inr (concat (map percent_octet (utf8_octets (UTF16SurrogatePairToCodePoint c d))) @ r))"
  using unreserved_not_surrogate [of c] surrogate_disjoint [of c]
  by (auto simp: CodePointAt_def split: sum.splits)

lemma Encode_wf: "(\<exists>e. Encode s = Inr e) \<longleftrightarrow> well_formed s"
proof (induction s rule: well_formed.induct)
  case 1
  show ?case by simp
next
  case (2 c cs)
  show ?case
  proof (cases "\<not> is_leading_surrogate c \<and> \<not> is_trailing_surrogate c")
    case True
    with 2 have "(\<exists>e. Encode cs = Inr e) = well_formed cs" by simp
    with True show ?thesis
      by (simp add: Encode_plain del: Encode.simps split: sum.splits) (metis sum.exhaust_sel sum.disc)
  next
    case False
    show ?thesis
    proof (cases "is_trailing_surrogate c")
      case True
      then show ?thesis by (simp add: Encode_trailing del: Encode.simps)
    next
      case nt: False
      with False have lead: "is_leading_surrogate c" by simp
      show ?thesis
      proof (cases cs)
        case Nil
        with lead nt show ?thesis by (simp add: Encode_leading_end del: Encode.simps)
      next
        case (Cons d ds)
        show ?thesis
        proof (cases "is_trailing_surrogate d")
          case True
          with 2(2) False nt Cons have "(\<exists>e. Encode ds = Inr e) = well_formed ds" by simp
          with True lead nt Cons show ?thesis
            by (simp add: Encode_pair del: Encode.simps split: sum.splits) (metis sum.exhaust_sel sum.disc)
        next
          case False
          with lead nt Cons show ?thesis
            by (simp add: Encode_leading_unpaired del: Encode.simps)
        qed
      qed
    qed
  qed
qed

lemma unat_of_nat16: "n < 65536 \<Longrightarrow> unat (of_nat n :: 16 word) = n"
  by (simp add: unat_of_nat)

lemma unat_hex_digit:
  assumes "d < 16"
  shows "unat (hex_digit d) = (if d < 10 then 0x30 + d else 0x41 + (d - 10))"
proof (cases "d < 10")
  case True
  then have "unat (of_nat (0x30 + d) :: 16 word) = 0x30 + d"
    by (intro unat_of_nat16) simp
  with True show ?thesis by (simp only: hex_digit_def if_True)
next
  case False
  with assms have "unat (of_nat (0x41 + (d - 10)) :: 16 word) = 0x41 + (d - 10)"
    by (intro unat_of_nat16) simp
  with False show ?thesis by (simp only: hex_digit_def if_False)
qed

lemma hex_value_hex_digit: "d < 16 \<Longrightarrow> hex_value (hex_digit d) = Some d"
  unfolding hex_value_def by (simp only: unat_hex_digit) (simp split: if_splits)

lemma percent_decode_percent_octet:
  "b < 256 \<Longrightarrow> percent_decode (percent_octet b @ r) = map_option ((#) b) (percent_decode r)"
  by (simp add: percent_octet_def hex_value_hex_digit)

lemma percent_decode_octets:
  "\<forall>b\<in>set bs. b < 256 \<Longrightarrow>
   percent_decode (concat (map percent_octet bs) @ r) = map_option ((@) bs) (percent_decode r)"
proof (induction bs)
  case Nil
  show ?case by (simp add: option.map_ident)
next
  case (Cons b bs)
  then show ?case
    by (simp add: percent_decode_percent_octet option.map_comp comp_def del: percent_decode.simps)
qed

lemma utf8_decode_2:
  "a < 0x20 \<Longrightarrow> b < 0x40 \<Longrightarrow> 0x80 \<le> a * 0x40 + b \<Longrightarrow>
   utf8_decode ((0xC0 + a) # (0x80 + b) # bs) = map_option ((#) (a * 0x40 + b)) (utf8_decode bs)"
  by (simp add: continuation_def Let_def)

lemma utf8_decode_3:
  "a < 0x10 \<Longrightarrow> b < 0x40 \<Longrightarrow> c < 0x40 \<Longrightarrow> 0x800 \<le> a * 0x1000 + b * 0x40 + c \<Longrightarrow>
   \<not> (0xD800 \<le> a * 0x1000 + b * 0x40 + c \<and> a * 0x1000 + b * 0x40 + c \<le> 0xDFFF) \<Longrightarrow>
   utf8_decode ((0xE0 + a) # (0x80 + b) # (0x80 + c) # bs) =
     map_option ((#) (a * 0x1000 + b * 0x40 + c)) (utf8_decode bs)"
  by (simp add: continuation_def Let_def)

lemma utf8_decode_4:
  "a < 0x8 \<Longrightarrow> b < 0x40 \<Longrightarrow> c < 0x40 \<Longrightarrow> d < 0x40 \<Longrightarrow>
   0x10000 \<le> a * 0x40000 + b * 0x1000 + c * 0x40 + d \<Longrightarrow>
   a * 0x40000 + b * 0x1000 + c * 0x40 + d \<le> 0x10FFFF \<Longrightarrow>
   utf8_decode ((0xF0 + a) # (0x80 + b) # (0x80 + c) # (0x80 + d) # bs) =
     map_option ((#) (a * 0x40000 + b * 0x1000 + c * 0x40 + d)) (utf8_decode bs)"
  by (simp add: continuation_def Let_def)

lemma split_base64_3:
  fixes cp :: nat
  shows "cp = cp div 0x1000 * 0x1000 + cp div 0x40 mod 0x40 * 0x40 + cp mod 0x40"
proof -
  define q where "q = cp div 0x40"
  have 1: "cp = q * 0x40 + cp mod 0x40" by (simp add: q_def)
  have 2: "q = q div 0x40 * 0x40 + q mod 0x40" by simp
  have 3: "cp div 0x1000 = q div 0x40" unfolding q_def by (simp add: div_mult2_eq [symmetric])
  show ?thesis unfolding 3 q_def [symmetric] using 1 2 by linarith
qed

lemma split_base64_4:
  fixes cp :: nat
  shows "cp = cp div 0x40000 * 0x40000 + cp div 0x1000 mod 0x40 * 0x1000
              + cp div 0x40 mod 0x40 * 0x40 + cp mod 0x40"
proof -
  define q where "q = cp div 0x1000"
  have 1: "cp = q * 0x1000 + cp div 0x40 mod 0x40 * 0x40 + cp mod 0x40"
    unfolding q_def by (rule split_base64_3)
  have 2: "q = q div 0x40 * 0x40 + q mod 0x40" by simp
  have 3: "cp div 0x40000 = q div 0x40" unfolding q_def by (simp add: div_mult2_eq [symmetric])
  show ?thesis unfolding 3 q_def [symmetric] using 1 2 by linarith
qed

lemma utf8_decode_octets:
  assumes "scalar_value cp"
  shows "utf8_decode (utf8_octets cp @ bs) = map_option ((#) cp) (utf8_decode bs)"
proof -
  consider (one) "cp < 0x80" | (two) "0x80 \<le> cp" "cp < 0x800"
    | (three) "0x800 \<le> cp" "cp < 0x10000" | (four) "0x10000 \<le> cp" "cp < 0x110000"
    using assms unfolding scalar_value_def by linarith
  then show ?thesis
  proof cases
    case one
    then show ?thesis by (simp add: utf8_octets_def)
  next
    case two
    define a b where "a = cp div 0x40" and "b = cp mod 0x40"
    have cp: "cp = a * 0x40 + b" by (simp add: a_def b_def)
    have a: "a < 0x20" using two by (simp add: a_def)
    have b: "b < 0x40" by (simp add: b_def)
    have "utf8_octets cp = [0xC0 + a, 0x80 + b]"
      using two by (simp add: utf8_octets_def a_def b_def)
    moreover have "utf8_decode ((0xC0 + a) # (0x80 + b) # bs)
        = map_option ((#) (a * 0x40 + b)) (utf8_decode bs)"
      using a b two(1) by (intro utf8_decode_2) (simp_all add: cp)
    ultimately show ?thesis by (simp only: cp append_Cons append_Nil)
  next
    case three
    define a b c where "a = cp div 0x1000" and "b = cp div 0x40 mod 0x40" and "c = cp mod 0x40"
    have cp: "cp = a * 0x1000 + b * 0x40 + c" unfolding a_def b_def c_def by (rule split_base64_3)
    have a: "a < 0x10" using three by (simp add: a_def)
    have b: "b < 0x40" by (simp add: b_def)
    have c: "c < 0x40" by (simp add: c_def)
    have ns: "\<not> (0xD800 \<le> cp \<and> cp \<le> 0xDFFF)" using assms by (simp add: scalar_value_def)
    have "utf8_octets cp = [0xE0 + a, 0x80 + b, 0x80 + c]"
      using three by (simp add: utf8_octets_def a_def b_def c_def)
    moreover have "utf8_decode ((0xE0 + a) # (0x80 + b) # (0x80 + c) # bs)
        = map_option ((#) (a * 0x1000 + b * 0x40 + c)) (utf8_decode bs)"
      using a b c three(1) ns unfolding cp by (intro utf8_decode_3)
    ultimately show ?thesis by (simp only: cp append_Cons append_Nil)
  next
    case four
    define a b c d where "a = cp div 0x40000" and "b = cp div 0x1000 mod 0x40"
      and "c = cp div 0x40 mod 0x40" and "d = cp mod 0x40"
    have cp: "cp = a * 0x40000 + b * 0x1000 + c * 0x40 + d"
      unfolding a_def b_def c_def d_def by (rule split_base64_4)
    have a: "a < 0x8" using four by (simp add: a_def)
    have b: "b < 0x40" by (simp add: b_def)
    have c: "c < 0x40" by (simp add: c_def)
    have d: "d < 0x40" by (simp add: d_def)
    have hi: "cp \<le> 0x10FFFF" using four by simp
    have "utf8_octets cp = [0xF0 + a, 0x80 + b, 0x80 + c, 0x80 + d]"
      using four by (simp add: utf8_octets_def a_def b_def c_def d_def)
    moreover have "utf8_decode ((0xF0 + a) # (0x80 + b) # (0x80 + c) # (0x80 + d) # bs)
        = map_option ((#) (a * 0x40000 + b * 0x1000 + c * 0x40 + d)) (utf8_decode bs)"
      using a b c d four(1) hi unfolding cp by (intro utf8_decode_4)
    ultimately show ?thesis by (simp only: cp append_Cons append_Nil)
  qed
qed

lemma utf8_decode_concat:
  "list_all scalar_value cps \<Longrightarrow> utf8_decode (concat (map utf8_octets cps)) = Some cps"
proof (induction cps)
  case Nil
  show ?case by simp
next
  case (Cons cp cps)
  then show ?case by (simp add: utf8_decode_octets del: utf8_decode.simps)
qed

lemma code_points_plain:
  "\<not> is_leading_surrogate c \<Longrightarrow> \<not> is_trailing_surrogate c \<Longrightarrow>
   code_points (c # cs) = unat c # code_points cs"
  by (simp add: CodePointAt_def)

lemma code_points_pair:
  "is_leading_surrogate c \<Longrightarrow> is_trailing_surrogate d \<Longrightarrow>
   code_points (c # d # ds) = UTF16SurrogatePairToCodePoint c d # code_points ds"
  using surrogate_disjoint [of c] by (simp add: CodePointAt_def)

lemma unat_lt_65536: "unat (c :: code_unit) < 65536"
  using unsigned_less [of c, where ?'a = nat] by simp

lemma percent_decode_unreserved:
  assumes "uriUnreserved c"
  shows "percent_decode (c # r) = map_option ((#) (unat c)) (percent_decode r)"
proof -
  from assms have "c \<noteq> 0x25" "c \<noteq> 0x2B" "unat c < 0x80"
    by (auto simp: uriUnreserved_def)
  then show ?thesis by simp
qed

lemma percent_decode_encode_unit:
  "percent_decode (encode_unit c @ r) = map_option ((@) (utf8_octets (unat c))) (percent_decode r)"
proof (cases "uriUnreserved c")
  case True
  then have "unat c < 0x80" by (auto simp: uriUnreserved_def)
  then have "utf8_octets (unat c) = [unat c]" by (simp add: utf8_octets_def)
  with True show ?thesis
    by (cases "percent_decode r")
      (simp_all add: encode_unit_def percent_decode_unreserved del: percent_decode.simps)
next
  case False
  have "unat c < 0x110000" using unat_lt_65536 [of c] by simp
  then have "\<forall>b\<in>set (utf8_octets (unat c)). b < 256"
    by (auto simp: utf8_octets_def)
  with False show ?thesis
    by (simp add: encode_unit_def percent_decode_octets del: percent_decode.simps)
qed

lemma pair_range:
  assumes "is_leading_surrogate c" "is_trailing_surrogate d"
  shows "0x10000 \<le> UTF16SurrogatePairToCodePoint c d"
    and "UTF16SurrogatePairToCodePoint c d < 0x110000"
proof -
  from assms have c: "unat c - 0xD800 \<le> 0x3FF" and d: "unat d - 0xDC00 \<le> 0x3FF"
    unfolding is_leading_surrogate_def is_trailing_surrogate_def by linarith+
  show "0x10000 \<le> UTF16SurrogatePairToCodePoint c d"
    by (simp add: UTF16SurrogatePairToCodePoint_def)
  from c have "(unat c - 0xD800) * 0x400 \<le> 0x3FF * 0x400" by (rule mult_le_mono1)
  with d show "UTF16SurrogatePairToCodePoint c d < 0x110000"
    unfolding UTF16SurrogatePairToCodePoint_def by linarith
qed

lemma well_formed_induct [consumes 1, case_names Nil plain pair]:
  assumes wf: "well_formed s"
    and nil: "P []"
    and plain: "\<And>c cs. \<not> is_leading_surrogate c \<Longrightarrow> \<not> is_trailing_surrogate c \<Longrightarrow>
                 well_formed cs \<Longrightarrow> P cs \<Longrightarrow> P (c # cs)"
    and pair: "\<And>c d ds. is_leading_surrogate c \<Longrightarrow> is_trailing_surrogate d \<Longrightarrow>
                 well_formed ds \<Longrightarrow> P ds \<Longrightarrow> P (c # d # ds)"
  shows "P s"
  using wf
proof (induction s rule: well_formed.induct)
  case 1
  show ?case by (rule nil)
next
  case (2 c cs)
  show ?case
  proof (cases "\<not> is_leading_surrogate c \<and> \<not> is_trailing_surrogate c")
    case True
    with 2 show ?thesis by (auto intro: plain)
  next
    case False
    with "2.prems" have nt: "\<not> is_trailing_surrogate c" and lead: "is_leading_surrogate c"
      by (auto split: if_splits)
    from "2.prems" False nt obtain d ds where cs: "cs = d # ds"
      and d: "is_trailing_surrogate d" and ds: "well_formed ds"
      by (auto split: if_splits list.splits)
    from "2.IH"(2) [OF False nt cs] ds have "P ds" by simp
    with lead d ds show ?thesis unfolding cs by (intro pair)
  qed
qed

lemma utf16_units_plain:
  "\<not> is_leading_surrogate c \<Longrightarrow> \<not> is_trailing_surrogate c \<Longrightarrow> utf16_units (unat c) = [c]"
  using unat_lt_65536 [of c] by (simp add: utf16_units_def)

lemma utf16_units_pair:
  assumes "is_leading_surrogate c" "is_trailing_surrogate d"
  shows "utf16_units (UTF16SurrogatePairToCodePoint c d) = [c, d]"
proof -
  define x y where "x = unat c - 0xD800" and "y = unat d - 0xDC00"
  from assms have c: "unat c = 0xD800 + x" and d: "unat d = 0xDC00 + y" and y: "y < 0x400"
    unfolding is_leading_surrogate_def is_trailing_surrogate_def x_def y_def by linarith+
  have cp: "UTF16SurrogatePairToCodePoint c d = x * 0x400 + y + 0x10000"
    by (simp add: UTF16SurrogatePairToCodePoint_def x_def y_def)
  have "(x * 0x400 + y + 0x10000 - 0x10000) div 0x400 = x" using y by simp
  moreover have "(x * 0x400 + y + 0x10000 - 0x10000) mod 0x400 = y" using y by simp
  moreover have "\<not> x * 0x400 + y + 0x10000 < 0x10000" by simp
  ultimately have "utf16_units (UTF16SurrogatePairToCodePoint c d)
      = [of_nat (unat c), of_nat (unat d)]"
    unfolding cp utf16_units_def c d by (simp only: if_False)
  then show ?thesis by simp
qed

lemma scalar_value_plain:
  "\<not> is_leading_surrogate c \<Longrightarrow> \<not> is_trailing_surrogate c \<Longrightarrow> scalar_value (unat c)"
  using unat_lt_65536 [of c]
  unfolding scalar_value_def is_leading_surrogate_def is_trailing_surrogate_def by linarith

lemma scalar_value_pair:
  "is_leading_surrogate c \<Longrightarrow> is_trailing_surrogate d \<Longrightarrow>
   scalar_value (UTF16SurrogatePairToCodePoint c d)"
  using pair_range [of c d] unfolding scalar_value_def by linarith

lemma well_formed_scalars: "well_formed s \<Longrightarrow> list_all scalar_value (code_points s)"
proof (induction s rule: well_formed_induct)
  case Nil
  show ?case by simp
next
  case (plain c cs)
  then show ?case by (simp add: code_points_plain scalar_value_plain del: code_points.simps)
next
  case (pair c d ds)
  then show ?case by (simp add: code_points_pair scalar_value_pair del: code_points.simps)
qed

lemma well_formed_units: "well_formed s \<Longrightarrow> concat (map utf16_units (code_points s)) = s"
proof (induction s rule: well_formed_induct)
  case Nil
  show ?case by simp
next
  case (plain c cs)
  then show ?case by (simp add: code_points_plain utf16_units_plain del: code_points.simps)
next
  case (pair c d ds)
  then show ?case by (simp add: code_points_pair utf16_units_pair del: code_points.simps)
qed

lemma utf8_octets_bound: "cp < 0x110000 \<Longrightarrow> \<forall>b\<in>set (utf8_octets cp). b < 256"
  by (auto simp: utf8_octets_def)

lemma hex_digit_safe: "d < 16 \<Longrightarrow> uri_safe (hex_digit d)"
  unfolding uri_safe_def uriUnreserved_def by (simp only: unat_hex_digit) (simp split: if_splits)

lemma percent_octet_safe: "b < 256 \<Longrightarrow> \<forall>c\<in>set (percent_octet b). uri_safe c"
  by (simp add: percent_octet_def hex_digit_safe) (simp add: uri_safe_def)

lemma percent_octets_safe:
  "\<forall>b\<in>set bs. b < 256 \<Longrightarrow> \<forall>c\<in>set (concat (map percent_octet bs)). uri_safe c"
  using percent_octet_safe by auto

lemma encode_unit_safe: "\<forall>x\<in>set (encode_unit c). uri_safe x"
proof (cases "uriUnreserved c")
  case True
  then show ?thesis by (simp add: encode_unit_def uri_safe_def)
next
  case False
  have "unat c < 0x110000" using unat_lt_65536 [of c] by simp
  then have "\<forall>x\<in>set (concat (map percent_octet (utf8_octets (unat c)))). uri_safe x"
    by (intro percent_octets_safe utf8_octets_bound)
  with False show ?thesis by (simp only: encode_unit_def if_False)
qed

lemma Encode_well_formed:
  "well_formed s \<Longrightarrow>
   \<exists>e. Encode s = Inr e \<and>
       percent_decode e = Some (concat (map utf8_octets (code_points s))) \<and>
       (\<forall>c\<in>set e. uri_safe c)"
proof (induction s rule: well_formed_induct)
  case Nil
  show ?case by simp
next
  case (plain c cs)
  then obtain e where e: "Encode cs = Inr e"
    "percent_decode e = Some (concat (map utf8_octets (code_points cs)))"
    "\<forall>c\<in>set e. uri_safe c"
    by blast
  from plain e(1) have "Encode (c # cs) = Inr (encode_unit c @ e)"
    by (simp add: Encode_plain del: Encode.simps)
  moreover have "percent_decode (encode_unit c @ e)
      = Some (concat (map utf8_octets (code_points (c # cs))))"
    using plain(1,2) e(2)
    by (simp add: percent_decode_encode_unit code_points_plain
        del: percent_decode.simps code_points.simps)
  moreover have "\<forall>x\<in>set (encode_unit c @ e). uri_safe x"
    using encode_unit_safe [of c] e(3) by auto
  ultimately show ?case by blast
next
  case (pair c d ds)
  then obtain e where e: "Encode ds = Inr e"
    "percent_decode e = Some (concat (map utf8_octets (code_points ds)))"
    "\<forall>c\<in>set e. uri_safe c"
    by blast
  let ?cp = "UTF16SurrogatePairToCodePoint c d"
  let ?p = "concat (map percent_octet (utf8_octets ?cp))"
  have b: "\<forall>b\<in>set (utf8_octets ?cp). b < 256"
    using pair_range(2) [OF pair(1,2)] by (rule utf8_octets_bound)
  from pair e(1) have "Encode (c # d # ds) = Inr (?p @ e)"
    by (simp add: Encode_pair del: Encode.simps)
  moreover have "percent_decode (?p @ e)
      = Some (concat (map utf8_octets (code_points (c # d # ds))))"
    using pair(1,2) e(2) b
    by (simp add: percent_decode_octets code_points_pair
        del: percent_decode.simps code_points.simps)
  moreover have "\<forall>x\<in>set (?p @ e). uri_safe x"
    using percent_octets_safe [OF b] e(3) by auto
  ultimately show ?case by blast
qed

lemma decode_component_Encode:
  assumes "Encode s = Inr e"
  shows "decode_component e = Some s"
proof -
  from assms have wf: "well_formed s" using Encode_wf [of s] by blast
  from Encode_well_formed [OF wf] assms
  have "percent_decode e = Some (concat (map utf8_octets (code_points s)))" by auto
  moreover have "utf8_decode (concat (map utf8_octets (code_points s))) = Some (code_points s)"
    using wf by (intro utf8_decode_concat well_formed_scalars)
  ultimately show ?thesis
    using well_formed_units [OF wf] by (simp add: decode_component_def)
qed

lemma Encode_safe: "Encode s = Inr e \<Longrightarrow> \<forall>c\<in>set e. uri_safe c"
  using Encode_wf [of s] Encode_well_formed [of s] by auto

section \<open>Symbolic execution of the operations\<close>

lemma navigate_sent:
  assumes "encodeURIComponent (url @ lit ''?p'') = Inr enc"
  shows "navigate url s =
    (Returned (PromiseRef (length (promises s))),
     s\<lparr>promises := promises s @ [Pending],
       xhrs := xhrs s @ [start_xhr (length (promises s))],
       network := network s @ [beacon_request (lit ''action=start&url='' @ enc)]\<rparr>)"
  using assms
  by (simp add: navigate_def new_promise_def new_XMLHttpRequest_def xhr_open_def
      setRequestHeader_def set_onload_def set_onerror_def send_def update_xhr_def
      start_xhr_def beacon_request_def)

lemma navigate_thrown:
  assumes "encodeURIComponent (url @ lit ''?p'') = Inl err"
  shows "navigate url s =
    (Returned (PromiseRef (length (promises s))),
     s\<lparr>promises := promises s @ [Rejected err],
       xhrs := xhrs s @ [(start_xhr (length (promises s)))\<lparr>readyState := OPENED, onerror := None\<rparr>]\<rparr>)"
  using assms
  by (simp add: navigate_def new_promise_def new_XMLHttpRequest_def xhr_open_def
      setRequestHeader_def set_onload_def update_xhr_def reject_def settle_def
      start_xhr_def)

lemma encodeURIComponent_cases:
  "(\<exists>enc. encodeURIComponent u = Inr enc) \<or> encodeURIComponent u = Inl URIError"
proof (induction u rule: Encode.induct)
  case 1
  show ?case by (simp add: encodeURIComponent_def)
next
  case (2 c cs)
  show ?case
  proof (cases "uriUnreserved c")
    case True
    with 2(1) show ?thesis by (auto simp: encodeURIComponent_def)
  next
    case False
    show ?thesis
    proof (cases "IsUnpairedSurrogate (CodePointAt c cs)")
      case True
      with False show ?thesis by (simp add: encodeURIComponent_def)
    next
      case u: False
      from 2(2) [OF False refl u] False u show ?thesis
        by (auto simp: encodeURIComponent_def Let_def)
    qed
  qed
qed

lemma terminate_unresolved:
  assumes "global_url s = None"
  shows "terminate s =
    (Threw ReferenceError,
     s\<lparr>xhrs := xhrs s @ [(start_xhr 0)\<lparr>readyState := OPENED, onload := None, onerror := None\<rparr>]\<rparr>)"
  using assms
  by (simp add: terminate_def new_XMLHttpRequest_def xhr_open_def setRequestHeader_def
      update_xhr_def start_xhr_def)

lemma terminate_thrown:
  assumes "global_url s = Some g" "encodeURIComponent (g @ lit ''?p'') = Inl err"
  shows "terminate s =
    (Threw err,
     s\<lparr>xhrs := xhrs s @ [(start_xhr 0)\<lparr>readyState := OPENED, onload := None, onerror := None\<rparr>]\<rparr>)"
  using assms
  by (simp add: terminate_def new_XMLHttpRequest_def xhr_open_def setRequestHeader_def
      update_xhr_def start_xhr_def)

lemma terminate_sent:
  assumes "global_url s = Some g" "encodeURIComponent (g @ lit ''?p'') = Inr enc"
  shows "terminate s =
    (Returned Undefined,
     s\<lparr>xhrs := xhrs s @ [(start_xhr 0)\<lparr>onload := None, onerror := None\<rparr>],
       network := network s @ [beacon_request (lit ''action=stop&url='' @ enc)]\<rparr>)"
  using assms
  by (simp add: terminate_def new_XMLHttpRequest_def xhr_open_def setRequestHeader_def
      update_xhr_def send_def start_xhr_def beacon_request_def)

lemma display_createDataChannel_eq:
  "display_createDataChannel s =
    (Returned (PromiseRef (length (promises s))),
     s\<lparr>promises := promises s @ [Pending], console := console s @ [no_data_channel]\<rparr>)"
  by (simp add: display_createDataChannel_def new_promise_def console_write_def)

lemma controller_createDataChannel_eq:
  "controller_createDataChannel s =
    (Returned (PromiseRef (length (promises s))),
     s\<lparr>promises := promises s @ [Pending], console := console s @ [no_data_channel]\<rparr>)"
  by (simp add: controller_createDataChannel_def new_promise_def console_write_def)

lemma getAvailableDisplays_eq:
  "getAvailableDisplays s =
    (Returned (PromiseRef (length (promises s))),
     s\<lparr>promises := promises s @ [Fulfilled (Array [length (heap s)])],
       heap := heap s @ [PhysicalWebDisplay beacon_display_name]\<rparr>)"
  by (simp add: getAvailableDisplays_def new_promise_def new_object_def resolve_def settle_def)

lemma monitorIncomingControllers_absent:
  assumes "indexOf (location_search s) (lit ''?p'') = - 1"
  shows "monitorIncomingControllers s =
    (Returned Undefined,
     s\<lparr>console := console s @
        [lit ''not running in a receiving context created by Physical Web'']\<rparr>)"
  using assms by (simp add: monitorIncomingControllers_def console_write_def)

lemma monitorIncomingControllers_present:
  assumes "indexOf (location_search s) (lit ''?p'') \<noteq> - 1"
  shows "monitorIncomingControllers s =
    (Returned Undefined,
     s\<lparr>console := console s @ [lit ''running in a receiving context created by Physical Web''],
       heap := heap s @ [PhysicalWebRemoteController],
       incoming := (if onincomingcontroller s then incoming s @ [length (heap s)]
                    else incoming s)\<rparr>)"
  using assms
  by (simp add: monitorIncomingControllers_def console_write_def new_object_def)

lemma settle_simps [simp]:
  "xhrs (settle q st s) = xhrs s"
  "heap (settle q st s) = heap s"
  "network (settle q st s) = network s"
  "length (promises (settle q st s)) = length (promises s)"
  by (simp_all add: settle_def)

lemma settle_other: "q \<noteq> p \<Longrightarrow> promises (settle q st s) ! p = promises s ! p"
  by (simp add: settle_def)

lemma settle_settled: "promises s ! p \<noteq> Pending \<Longrightarrow> promises (settle q st s) ! p = promises s ! p"
  by (cases "q = p") (simp_all add: settle_def)

lemma settle_pending:
  "p < length (promises s) \<Longrightarrow> promises s ! p = Pending \<Longrightarrow> promises (settle p st s) ! p = st"
  by (simp add: settle_def)

lemma call_handler_simps [simp]:
  "xhrs (call_handler h e s) = xhrs s"
  "heap (call_handler h e s) = heap s"
  "network (call_handler h e s) = network s"
  "length (promises (call_handler h e s)) = length (promises s)"
  by (cases h; simp add: resolve_def reject_def)+

lemma call_handler_other:
  "handler_promise h \<noteq> p \<Longrightarrow> promises (call_handler h e s) ! p = promises s ! p"
  by (cases h) (simp_all add: resolve_def reject_def settle_other)

lemma call_handler_settled:
  "promises s ! p \<noteq> Pending \<Longrightarrow> promises (call_handler h e s) ! p = promises s ! p"
  by (cases h) (simp_all add: resolve_def reject_def settle_settled)

lemma fire_idle:
  "\<not> (x < length (xhrs s) \<and> readyState (xhrs s ! x) = IN_FLIGHT) \<Longrightarrow> fire x ev s = s"
  unfolding fire_def by (simp only: if_False)

lemma fire_xhrs:
  "x < length (xhrs s) \<Longrightarrow> readyState (xhrs s ! x) = IN_FLIGHT \<Longrightarrow>
   xhrs (fire x ev s) = (xhrs s)[x := (xhrs s ! x)\<lparr>readyState := DONE\<rparr>]"
  by (simp add: fire_def Let_def update_xhr_def split: xhr_event.splits option.splits)

lemma fire_simps [simp]:
  "heap (fire x ev s) = heap s"
  "network (fire x ev s) = network s"
  "length (promises (fire x ev s)) = length (promises s)"
  by (simp_all add: fire_def Let_def update_xhr_def split: xhr_event.splits option.splits)

lemma fire_other:
  assumes "x < length (xhrs s) \<longrightarrow> readyState (xhrs s ! x) = IN_FLIGHT \<longrightarrow>
           p \<notin> xhr_promises (xhrs s ! x)"
  shows "promises (fire x ev s) ! p = promises s ! p"
proof (cases "x < length (xhrs s) \<and> readyState (xhrs s ! x) = IN_FLIGHT")
  case False
  then show ?thesis by (simp add: fire_idle)
next
  case True
  with assms have "p \<notin> xhr_promises (xhrs s ! x)" by simp
  then have "\<And>h. onload (xhrs s ! x) = Some h \<Longrightarrow> handler_promise h \<noteq> p"
    and "\<And>h. onerror (xhrs s ! x) = Some h \<Longrightarrow> handler_promise h \<noteq> p"
    by (auto simp: xhr_promises_def)
  with True show ?thesis
    by (simp add: fire_def Let_def update_xhr_def call_handler_other
        split: xhr_event.splits option.splits)
qed

lemma navigate_cases [case_names sent thrown]:
  obtains enc where "encodeURIComponent (u @ lit ''?p'') = Inr enc"
      "snd (navigate u s) =
         s\<lparr>promises := promises s @ [Pending],
           xhrs := xhrs s @ [start_xhr (length (promises s))],
           network := network s @ [beacon_request (lit ''action=start&url='' @ enc)]\<rparr>"
  | "encodeURIComponent (u @ lit ''?p'') = Inl URIError"
      "snd (navigate u s) =
         s\<lparr>promises := promises s @ [Rejected URIError],
           xhrs := xhrs s @
             [(start_xhr (length (promises s)))\<lparr>readyState := OPENED, onerror := None\<rparr>]\<rparr>"
  using encodeURIComponent_cases [of "u @ lit ''?p''"]
  by (auto simp: navigate_sent navigate_thrown)

lemma terminate_cases [case_names sent thrown]:
  obtains enc where
      "snd (terminate s) =
         s\<lparr>xhrs := xhrs s @ [(start_xhr 0)\<lparr>onload := None, onerror := None\<rparr>],
           network := network s @ [beacon_request (lit ''action=stop&url='' @ enc)]\<rparr>"
  | "snd (terminate s) =
         s\<lparr>xhrs := xhrs s @
             [(start_xhr 0)\<lparr>readyState := OPENED, onload := None, onerror := None\<rparr>]\<rparr>"
proof (cases "global_url s")
  case None
  then show ?thesis using that(2) by (simp add: terminate_unresolved)
next
  case (Some g)
  from encodeURIComponent_cases [of "g @ lit ''?p''"] show ?thesis
  proof
    assume "\<exists>enc. encodeURIComponent (g @ lit ''?p'') = Inr enc"
    then obtain enc where "encodeURIComponent (g @ lit ''?p'') = Inr enc" ..
    with Some show ?thesis using that(1) by (simp add: terminate_sent)
  next
    assume "encodeURIComponent (g @ lit ''?p'') = Inl URIError"
    with Some show ?thesis using that(2) by (simp add: terminate_thrown)
  qed
qed

lemma xhr_promises_start [simp]:
  "xhr_promises (start_xhr q) = {q}"
  "xhr_promises ((start_xhr q)\<lparr>readyState := OPENED, onerror := None\<rparr>) = {q}"
  "xhr_promises ((start_xhr q)\<lparr>onload := None, onerror := None\<rparr>) = {}"
  "xhr_promises ((start_xhr q)\<lparr>readyState := OPENED, onload := None, onerror := None\<rparr>) = {}"
  by (simp_all add: xhr_promises_def start_xhr_def)

lemma xhr_promises_done [simp]: "xhr_promises (r\<lparr>readyState := st\<rparr>) = xhr_promises r"
  by (simp add: xhr_promises_def)

lemma monitorIncomingControllers_frame [simp]:
  "promises (snd (monitorIncomingControllers s)) = promises s"
  "xhrs (snd (monitorIncomingControllers s)) = xhrs s"
  "network (snd (monitorIncomingControllers s)) = network s"
  by (cases "indexOf (location_search s) (lit ''?p'') = - 1";
      simp add: monitorIncomingControllers_absent monitorIncomingControllers_present)+

lemma step_promises_detached:
  assumes "detached p s"
  shows "promises (step s a) ! p = promises s ! p"
proof (cases a)
  case (Navigate d u)
  from assms have "p < length (promises s)" by (simp add: detached_def)
  then show ?thesis unfolding Navigate
    by (cases u s rule: navigate_cases) (simp_all add: nth_append)
next
  case (Terminate d)
  show ?thesis unfolding Terminate by (cases s rule: terminate_cases) simp_all
next
  case (XhrEvent x ev)
  from assms have "x < length (xhrs s) \<longrightarrow> readyState (xhrs s ! x) = IN_FLIGHT \<longrightarrow>
      p \<notin> xhr_promises (xhrs s ! x)"
    by (auto simp: detached_def)
  then show ?thesis unfolding XhrEvent by (simp add: fire_other)
next
  case GetAvailableDisplays
  from assms have "p < length (promises s)" by (simp add: detached_def)
  then show ?thesis unfolding GetAvailableDisplays
    by (simp add: getAvailableDisplays_eq nth_append)
next
  case (DisplayCreateDataChannel d)
  from assms have "p < length (promises s)" by (simp add: detached_def)
  then show ?thesis unfolding DisplayCreateDataChannel
    by (simp add: display_createDataChannel_eq nth_append)
next
  case (ControllerCreateDataChannel d)
  from assms have "p < length (promises s)" by (simp add: detached_def)
  then show ?thesis unfolding ControllerCreateDataChannel
    by (simp add: controller_createDataChannel_eq nth_append)
qed simp_all

lemma detached_step:
  assumes "detached p s"
  shows "detached p (step s a)"
proof (cases a)
  case (Navigate d u)
  from assms show ?thesis unfolding Navigate
    by (cases u s rule: navigate_cases) (auto simp: detached_def)
next
  case (Terminate d)
  from assms show ?thesis unfolding Terminate
    by (cases s rule: terminate_cases) (auto simp: detached_def)
next
  case (XhrEvent x ev)
  show ?thesis
  proof (cases "x < length (xhrs s) \<and> readyState (xhrs s ! x) = IN_FLIGHT")
    case False
    with assms show ?thesis unfolding XhrEvent by (simp add: fire_idle)
  next
    case True
    then have xs: "xhrs (fire x ev s) = (xhrs s)[x := (xhrs s ! x)\<lparr>readyState := DONE\<rparr>]"
      by (simp add: fire_xhrs)
    have "readyState r \<noteq> IN_FLIGHT"
      if "r \<in> set (xhrs (fire x ev s))" "p \<in> xhr_promises r" for r
    proof -
      from that(1) have "r \<in> set ((xhrs s)[x := (xhrs s ! x)\<lparr>readyState := DONE\<rparr>])"
        by (simp only: xs)
      then have "r \<in> insert ((xhrs s ! x)\<lparr>readyState := DONE\<rparr>) (set (xhrs s))"
        by (rule subsetD [OF set_update_subset_insert])
      then show ?thesis
      proof
        assume "r = (xhrs s ! x)\<lparr>readyState := DONE\<rparr>"
        then show ?thesis by simp
      next
        assume "r \<in> set (xhrs s)"
        with assms that(2) show ?thesis by (simp add: detached_def)
      qed
    qed
    moreover from assms have "p < length (promises (fire x ev s))"
      by (simp add: detached_def)
    ultimately show ?thesis unfolding XhrEvent detached_def step.simps by blast
  qed
next
  case GetAvailableDisplays
  from assms show ?thesis unfolding GetAvailableDisplays
    by (auto simp: detached_def getAvailableDisplays_eq)
next
  case (DisplayCreateDataChannel d)
  from assms show ?thesis unfolding DisplayCreateDataChannel
    by (auto simp: detached_def display_createDataChannel_eq)
next
  case (ControllerCreateDataChannel d)
  from assms show ?thesis unfolding ControllerCreateDataChannel
    by (auto simp: detached_def controller_createDataChannel_eq)
next
  case MonitorIncomingControllers
  from assms show ?thesis unfolding MonitorIncomingControllers
    by (auto simp: detached_def)
qed (use assms in \<open>auto simp: detached_def\<close>)

lemma detached_run:
  "detached p s \<Longrightarrow> detached p (run s ops) \<and> promises (run s ops) ! p = promises s ! p"
proof (induction ops arbitrary: s)
  case Nil
  then show ?case by simp
next
  case (Cons a ops)
  from Cons.prems have "detached p (step s a)" by (rule detached_step)
  from Cons.IH [OF this] step_promises_detached [OF Cons.prems, of a]
  show ?case by simp
qed

section \<open>Invariants of runs\<close>

lemma handlers_bound_initial: "handlers_bound (initial_state q g)"
  by (simp add: handlers_bound_def initial_state_def)

lemma handlers_bound_step:
  assumes "handlers_bound s"
  shows "handlers_bound (step s a)"
proof (cases a)
  case (Navigate d u)
  from assms show ?thesis unfolding Navigate
    by (cases u s rule: navigate_cases) (auto simp: handlers_bound_def less_Suc_eq)
next
  case (Terminate d)
  from assms show ?thesis unfolding Terminate
    by (cases s rule: terminate_cases) (auto simp: handlers_bound_def)
next
  case (XhrEvent x ev)
  show ?thesis
  proof (cases "x < length (xhrs s) \<and> readyState (xhrs s ! x) = IN_FLIGHT")
    case False
    with assms show ?thesis unfolding XhrEvent by (simp add: fire_idle)
  next
    case True
    then have xs: "xhrs (fire x ev s) = (xhrs s)[x := (xhrs s ! x)\<lparr>readyState := DONE\<rparr>]"
      by (simp add: fire_xhrs)
    have "q < length (promises (fire x ev s))"
      if "r \<in> set (xhrs (fire x ev s))" "q \<in> xhr_promises r" for r q
    proof -
      from that(1) have "r \<in> set ((xhrs s)[x := (xhrs s ! x)\<lparr>readyState := DONE\<rparr>])"
        by (simp only: xs)
      then have "r \<in> insert ((xhrs s ! x)\<lparr>readyState := DONE\<rparr>) (set (xhrs s))"
        by (rule subsetD [OF set_update_subset_insert])
      then show ?thesis
      proof
        assume "r = (xhrs s ! x)\<lparr>readyState := DONE\<rparr>"
        with that(2) have "q \<in> xhr_promises (xhrs s ! x)" by simp
        moreover from True have "xhrs s ! x \<in> set (xhrs s)" by simp
        ultimately show ?thesis using assms by (auto simp: handlers_bound_def)
      next
        assume "r \<in> set (xhrs s)"
        with assms that(2) show ?thesis by (auto simp: handlers_bound_def)
      qed
    qed
    then show ?thesis unfolding XhrEvent handlers_bound_def step.simps by blast
  qed
next
  case GetAvailableDisplays
  from assms show ?thesis unfolding GetAvailableDisplays
    by (auto simp: handlers_bound_def getAvailableDisplays_eq less_Suc_eq)
next
  case (DisplayCreateDataChannel d)
  from assms show ?thesis unfolding DisplayCreateDataChannel
    by (auto simp: handlers_bound_def display_createDataChannel_eq less_Suc_eq)
next
  case (ControllerCreateDataChannel d)
  from assms show ?thesis unfolding ControllerCreateDataChannel
    by (auto simp: handlers_bound_def controller_createDataChannel_eq less_Suc_eq)
next
  case MonitorIncomingControllers
  from assms show ?thesis unfolding MonitorIncomingControllers
    by (auto simp: handlers_bound_def)
qed (use assms in \<open>auto simp: handlers_bound_def\<close>)

lemma handlers_bound_run: "handlers_bound s \<Longrightarrow> handlers_bound (run s ops)"
  by (induction ops arbitrary: s) (simp_all add: handlers_bound_step)

lemma handlers_bound_reachable: "handlers_bound (run (initial_state q g) ops)"
  by (intro handlers_bound_run handlers_bound_initial)

lemma fresh_promise_detached:
  assumes "handlers_bound s"
  shows "detached (length (promises s)) (s\<lparr>promises := promises s @ [st], console := c\<rparr>)"
  using assms by (auto simp: detached_def handlers_bound_def)

lemma readyState_start [simp]: "readyState (start_xhr p) = IN_FLIGHT"
  "onload (start_xhr p) = Some (navigate_onload p)"
  "onerror (start_xhr p) = Some (navigate_onerror p)"
  by (simp_all add: start_xhr_def)

lemma navigate_attached:
  assumes "handlers_bound s" "encodeURIComponent (u @ lit ''?p'') = Inr enc"
  shows "attached (length (promises s)) (length (xhrs s)) (snd (navigate u s))"
proof -
  have "length (promises s) \<notin> xhr_promises (xhrs s ! y)" if "y < length (xhrs s)" for y
  proof
    assume "length (promises s) \<in> xhr_promises (xhrs s ! y)"
    moreover from that have "xhrs s ! y \<in> set (xhrs s)" by simp
    ultimately have "length (promises s) < length (promises s)"
      using assms(1) unfolding handlers_bound_def by blast
    then show False by simp
  qed
  then show ?thesis
    by (simp add: navigate_sent [OF assms(2)] attached_def nth_append less_Suc_eq)
qed

lemma attached_fire:
  assumes "attached p x s"
  shows "detached p (fire x ev s)" and "promises (fire x ev s) ! p = event_outcome (Some ev)"
proof -
  from assms have p: "p < length (promises s)" and x: "x < length (xhrs s)"
    and pend: "promises s ! p = Pending" and xp: "xhrs s ! x = start_xhr p"
    and others: "\<And>y. y < length (xhrs s) \<Longrightarrow> y \<noteq> x \<Longrightarrow> p \<in> xhr_promises (xhrs s ! y) \<Longrightarrow>
        readyState (xhrs s ! y) \<noteq> IN_FLIGHT"
    unfolding attached_def by blast+
  from x xp have xs: "xhrs (fire x ev s) = (xhrs s)[x := (start_xhr p)\<lparr>readyState := DONE\<rparr>]"
    by (simp add: fire_xhrs)
  have "readyState r \<noteq> IN_FLIGHT" if "r \<in> set (xhrs (fire x ev s))" "p \<in> xhr_promises r" for r
  proof -
    from that(1) obtain y where y: "y < length (xhrs s)"
      and r: "r = (xhrs s)[x := (start_xhr p)\<lparr>readyState := DONE\<rparr>] ! y"
      unfolding xs by (auto simp: in_set_conv_nth)
    show ?thesis
    proof (cases "y = x")
      case True
      with r x show ?thesis by simp
    next
      case False
      with r have "r = xhrs s ! y" by simp
      with others [OF y False] that(2) show ?thesis by simp
    qed
  qed
  with p show "detached p (fire x ev s)" unfolding detached_def by simp
  from p x pend xp show "promises (fire x ev s) ! p = event_outcome (Some ev)"
    by (cases ev)
      (simp_all add: fire_def Let_def update_xhr_def event_outcome_def resolve_def reject_def
        settle_def)
qed

lemma attached_step:
  assumes "attached p x s" and "\<And>ev. a \<noteq> XhrEvent x ev"
  shows "attached p x (step s a)"
proof (cases a)
  case (Navigate d u)
  from assms(1) show ?thesis unfolding Navigate
    by (cases u s rule: navigate_cases) (auto simp: attached_def nth_append less_Suc_eq)
next
  case (Terminate d)
  from assms(1) show ?thesis unfolding Terminate
    by (cases s rule: terminate_cases) (auto simp: attached_def nth_append less_Suc_eq)
next
  case (XhrEvent y ev)
  with assms(2) have yx: "y \<noteq> x" by blast
  show ?thesis
  proof (cases "y < length (xhrs s) \<and> readyState (xhrs s ! y) = IN_FLIGHT")
    case False
    with assms(1) show ?thesis unfolding XhrEvent by (simp add: fire_idle)
  next
    case True
    then have xs: "xhrs (fire y ev s) = (xhrs s)[y := (xhrs s ! y)\<lparr>readyState := DONE\<rparr>]"
      by (simp add: fire_xhrs)
    from assms(1) True yx have "p \<notin> xhr_promises (xhrs s ! y)"
      unfolding attached_def by blast
    then have "promises (fire y ev s) ! p = promises s ! p" by (simp add: fire_other)
    moreover have "readyState (xhrs (fire y ev s) ! z) \<noteq> IN_FLIGHT"
      if "z < length (xhrs s)" "z \<noteq> x" "p \<in> xhr_promises (xhrs (fire y ev s) ! z)" for z
    proof (cases "z = y")
      case True
      with that(1) show ?thesis unfolding xs by simp
    next
      case False
      with that assms(1) show ?thesis unfolding xs attached_def by simp
    qed
    ultimately show ?thesis using assms(1) yx unfolding XhrEvent attached_def step.simps
      by (simp add: xs)
  qed
next
  case GetAvailableDisplays
  from assms(1) show ?thesis unfolding GetAvailableDisplays
    by (auto simp: attached_def getAvailableDisplays_eq nth_append)
next
  case (DisplayCreateDataChannel d)
  from assms(1) show ?thesis unfolding DisplayCreateDataChannel
    by (auto simp: attached_def display_createDataChannel_eq nth_append)
next
  case (ControllerCreateDataChannel d)
  from assms(1) show ?thesis unfolding ControllerCreateDataChannel
    by (auto simp: attached_def controller_createDataChannel_eq nth_append)
next
  case MonitorIncomingControllers
  from assms(1) show ?thesis unfolding MonitorIncomingControllers
    by (auto simp: attached_def)
qed (use assms(1) in \<open>auto simp: attached_def\<close>)

lemma attached_run:
  "attached p x s \<Longrightarrow> promises (run s ops) ! p = event_outcome (first_event x ops)"
proof (induction ops arbitrary: s)
  case Nil
  then show ?case by (simp add: attached_def event_outcome_def)
next
  case (Cons a ops)
  show ?case
  proof (cases "\<exists>ev. a = XhrEvent x ev")
    case True
    then obtain ev where a: "a = XhrEvent x ev" ..
    from attached_fire [OF Cons.prems, of ev] detached_run [of p "fire x ev s" ops]
    show ?thesis by (simp add: a)
  next
    case False
    then have "attached p x (step s a)" by (intro attached_step Cons.prems) blast
    then have "promises (run (step s a) ops) ! p = event_outcome (first_event x ops)"
      by (rule Cons.IH)
    moreover from False have "first_event x (a # ops) = first_event x ops"
      by (cases a) auto
    ultimately show ?thesis by simp
  qed
qed

section \<open>Searching a string\<close>

lemma contains_Nil: "contains [] pat \<longleftrightarrow> pat = []"
  by (simp add: contains_def)

lemma contains_Cons:
  "contains (c # cs) pat \<longleftrightarrow> take (length pat) (c # cs) = pat \<or> contains cs pat"
proof
  assume "contains (c # cs) pat"
  then obtain pre post where eq: "c # cs = pre @ pat @ post" unfolding contains_def by blast
  show "take (length pat) (c # cs) = pat \<or> contains cs pat"
  proof (cases pre)
    case Nil
    with eq have "c # cs = pat @ post" by simp
    then show ?thesis by simp
  next
    case (Cons a pre')
    with eq have "cs = pre' @ pat @ post" by simp
    then show ?thesis unfolding contains_def by blast
  qed
next
  assume "take (length pat) (c # cs) = pat \<or> contains cs pat"
  then show "contains (c # cs) pat"
  proof
    assume "take (length pat) (c # cs) = pat"
    then have "c # cs = [] @ pat @ drop (length pat) (c # cs)"
      by (metis append_Nil append_take_drop_id)
    then show ?thesis unfolding contains_def by blast
  next
    assume "contains cs pat"
    then obtain pre post where "cs = pre @ pat @ post" unfolding contains_def by blast
    then have "c # cs = (c # pre) @ pat @ post" by simp
    then show ?thesis unfolding contains_def by blast
  qed
qed

lemma indexOf_from_nonneg: "0 \<le> k \<Longrightarrow> indexOf_from s pat k = - 1 \<or> k \<le> indexOf_from s pat k"
proof (induction s arbitrary: k)
  case Nil
  then show ?case by simp
next
  case (Cons c cs)
  from Cons.IH [of "k + 1"] Cons.prems show ?case by auto
qed

lemma indexOf_from_absent:
  "0 \<le> k \<Longrightarrow> indexOf_from s pat k = - 1 \<longleftrightarrow> \<not> contains s pat"
proof (induction s arbitrary: k)
  case Nil
  then show ?case by (auto simp: contains_Nil)
next
  case (Cons c cs)
  from Cons.IH [of "k + 1"] Cons.prems show ?case
    by (auto simp: contains_Cons)
qed

lemma indexOf_absent: "indexOf s pat = - 1 \<longleftrightarrow> \<not> contains s pat"
  unfolding indexOf_def by (rule indexOf_from_absent) simp

lemma indexOf_prefix: "indexOf (pat @ rest) pat = 0"
proof (cases "pat @ rest")
  case Nil
  then show ?thesis by (simp add: indexOf_def)
next
  case (Cons a list)
  have "take (length pat) (pat @ rest) = pat" by simp
  then have "take (length pat) (a # list) = pat" by (simp only: Cons)
  then show ?thesis unfolding indexOf_def Cons by simp
qed

section \<open>The body of a request\<close>

lemma well_formed_append:
  "well_formed u \<Longrightarrow> well_formed v \<Longrightarrow> well_formed (u @ v)"
proof (induction u rule: well_formed_induct)
  case Nil
  then show ?case by simp
next
  case (plain c cs)
  then show ?case by simp
next
  case (pair c d ds)
  then show ?case using surrogate_disjoint [of c] by simp
qed

lemma well_formed_prefix:
  "well_formed (u @ v) \<Longrightarrow> v = [] \<or> \<not> is_trailing_surrogate (hd v) \<Longrightarrow> well_formed u"
proof (induction u rule: well_formed.induct)
  case 1
  show ?case by simp
next
  case (2 c cs)
  show ?case
  proof (cases "\<not> is_leading_surrogate c \<and> \<not> is_trailing_surrogate c")
    case True
    with 2 show ?thesis by simp
  next
    case False
    with "2.prems"(1) have nt: "\<not> is_trailing_surrogate c" by (auto split: if_splits)
    show ?thesis
    proof (cases cs)
      case Nil
      with "2.prems" False nt show ?thesis by (cases v) (auto split: if_splits)
    next
      case (Cons d ds)
      with "2.prems"(1) False nt have d: "is_trailing_surrogate d" and "well_formed (ds @ v)"
        by (auto split: if_splits)
      with "2.IH"(2) [OF False nt Cons] "2.prems"(2) have "well_formed ds" by simp
      with False nt d Cons show ?thesis by simp
    qed
  qed
qed

lemma well_formed_marker: "well_formed (u @ lit ''?p'') \<longleftrightarrow> well_formed u"
proof
  assume "well_formed (u @ lit ''?p'')"
  then show "well_formed u"
    by (rule well_formed_prefix) (simp add: lit_def is_trailing_surrogate_def)
next
  have "well_formed (lit ''?p'')"
    by (simp add: lit_def is_trailing_surrogate_def is_leading_surrogate_def)
  moreover assume "well_formed u"
  ultimately show "well_formed (u @ lit ''?p'')" by (intro well_formed_append)
qed

lemma encodeURIComponent_marker:
  "(\<exists>enc. encodeURIComponent (u @ lit ''?p'') = Inr enc) \<longleftrightarrow> well_formed u"
  unfolding encodeURIComponent_def Encode_wf by (rule well_formed_marker)

lemma uri_safe_separators: "uri_safe c \<Longrightarrow> c \<noteq> 0x26"
  by (auto simp: uri_safe_def uriUnreserved_def)

lemma split_on_absent: "sep \<notin> set e \<Longrightarrow> split_on sep e = [e]"
  by (induction e) auto

lemma decode_component_literals:
  "decode_component (lit ''action'') = Some (lit ''action'')"
  "decode_component (lit ''start'') = Some (lit ''start'')"
  "decode_component (lit ''stop'') = Some (lit ''stop'')"
  "decode_component (lit ''url'') = Some (lit ''url'')"
  by (simp_all add: decode_component_def lit_def utf16_units_def)

lemma start_body_decodes:
  assumes "encodeURIComponent v = Inr enc"
  shows "form_urlencoded_decode (lit ''action=start&url='' @ enc)
         = Some [(lit ''action'', lit ''start''), (lit ''url'', v)]"
proof -
  from assms have e: "Encode v = Inr enc" by (simp add: encodeURIComponent_def)
  from Encode_safe [OF e] have "0x26 \<notin> set enc" using uri_safe_separators by blast
  then have "split_on 0x26 (lit ''action=start&url='' @ enc)
      = [lit ''action=start'', lit ''url='' @ enc]"
    by (simp add: lit_def split_on_absent)
  moreover have "takeWhile (\<lambda>c. c \<noteq> 0x3D) (lit ''action=start'') = lit ''action''"
    "drop 1 (dropWhile (\<lambda>c. c \<noteq> 0x3D) (lit ''action=start'')) = lit ''start''"
    "takeWhile (\<lambda>c. c \<noteq> 0x3D) (lit ''url='' @ enc) = lit ''url''"
    "drop 1 (dropWhile (\<lambda>c. c \<noteq> 0x3D) (lit ''url='' @ enc)) = enc"
    "lit ''action=start'' \<noteq> []" "lit ''url='' @ enc \<noteq> []"
    by (simp_all add: lit_def)
  ultimately show ?thesis
    by (simp add: form_urlencoded_decode_def decode_component_literals
        decode_component_Encode [OF e])
qed

lemma beacon_request_simps [simp]:
  "req_method (beacon_request b) = lit ''POST''"
  "req_url (beacon_request b) = lit ''http://localhost:3000/api/beacon''"
  "req_body (beacon_request b) = b"
  "get_header (lit ''Content-Type'') (req_headers (beacon_request b))
   = Some (lit ''application/x-www-form-urlencoded'')"
  by (simp_all add: beacon_request_def beacon_endpoint_def lit_def ascii_lower_def)

lemma issued_navigate_sent:
  assumes "encodeURIComponent (u @ lit ''?p'') = Inr enc"
  shows "issued s (snd (navigate u s)) = [beacon_request (lit ''action=start&url='' @ enc)]"
  by (simp add: navigate_sent [OF assms] issued_def)

lemma issued_navigate_thrown:
  assumes "encodeURIComponent (u @ lit ''?p'') = Inl err"
  shows "issued s (snd (navigate u s)) = []"
  by (simp add: navigate_thrown [OF assms] issued_def)

section \<open>What a run leaves untouched\<close>

lemma navigate_frame [simp]:
  "global_url (snd (navigate u s)) = global_url s"
  "location_search (snd (navigate u s)) = location_search s"
  "heap (snd (navigate u s)) = heap s"
  by (cases u s rule: navigate_cases; simp)+

lemma navigate_returns: "fst (navigate u s) = Returned (PromiseRef (length (promises s)))"
  by (simp add: navigate_def new_promise_def new_XMLHttpRequest_def Let_def
      split: sum.splits)

lemma terminate_ignores_navigate:
  "fst (terminate (snd (navigate u s))) = fst (terminate s) \<and>
   issued (snd (navigate u s)) (snd (terminate (snd (navigate u s)))) = issued s (snd (terminate s))"
proof (cases "global_url s")
  case None
  then have "global_url (snd (navigate u s)) = None" by simp
  from terminate_unresolved [OF this] terminate_unresolved [OF None]
  show ?thesis by (simp add: issued_def)
next
  case (Some g)
  then have g: "global_url (snd (navigate u s)) = Some g" by simp
  from encodeURIComponent_cases [of "g @ lit ''?p''"] show ?thesis
  proof
    assume "\<exists>enc. encodeURIComponent (g @ lit ''?p'') = Inr enc"
    then obtain enc where enc: "encodeURIComponent (g @ lit ''?p'') = Inr enc" ..
    from terminate_sent [OF g enc] terminate_sent [OF Some enc]
    show ?thesis by (simp add: issued_def)
  next
    assume err: "encodeURIComponent (g @ lit ''?p'') = Inl URIError"
    from terminate_thrown [OF g err] terminate_thrown [OF Some err]
    show ?thesis by (simp add: issued_def)
  qed
qed

lemma fire_settled:
  "promises s ! p \<noteq> Pending \<Longrightarrow> promises (fire x ev s) ! p = promises s ! p"
  by (simp add: fire_def Let_def update_xhr_def call_handler_settled
      split: xhr_event.splits option.splits)

lemma step_grows:
  "\<exists>ps hs. length (promises (step s a)) = length (promises s) + ps \<and>
     heap (step s a) = heap s @ hs"
proof (cases a)
  case (Navigate d u)
  show ?thesis unfolding Navigate by (cases u s rule: navigate_cases) simp_all
next
  case (Terminate d)
  show ?thesis unfolding Terminate by (cases s rule: terminate_cases) simp_all
next
  case MonitorIncomingControllers
  show ?thesis unfolding MonitorIncomingControllers
    by (cases "indexOf (location_search s) (lit ''?p'') = - 1")
      (simp_all add: monitorIncomingControllers_absent monitorIncomingControllers_present)
qed (simp_all add: getAvailableDisplays_eq display_createDataChannel_eq
    controller_createDataChannel_eq)

lemma settled_step:
  assumes "p < length (promises s)" "promises s ! p \<noteq> Pending"
  shows "promises (step s a) ! p = promises s ! p"
proof (cases a)
  case (Navigate d u)
  from assms(1) show ?thesis unfolding Navigate
    by (cases u s rule: navigate_cases) (simp_all add: nth_append)
next
  case (Terminate d)
  show ?thesis unfolding Terminate by (cases s rule: terminate_cases) simp_all
next
  case (XhrEvent x ev)
  from assms(2) show ?thesis unfolding XhrEvent by (simp add: fire_settled)
qed (use assms(1) in \<open>simp_all add: getAvailableDisplays_eq display_createDataChannel_eq
    controller_createDataChannel_eq nth_append\<close>)

lemma settled_run:
  "p < length (promises s) \<Longrightarrow> promises s ! p \<noteq> Pending \<Longrightarrow>
   p < length (promises (run s ops)) \<and> promises (run s ops) ! p = promises s ! p"
proof (induction ops arbitrary: s)
  case Nil
  then show ?case by simp
next
  case (Cons a ops)
  from step_grows [of s a] Cons.prems(1) have "p < length (promises (step s a))" by auto
  moreover from Cons.prems have eq: "promises (step s a) ! p = promises s ! p"
    by (rule settled_step)
  ultimately show ?case using Cons.IH [of "step s a"] Cons.prems(2) by simp
qed

lemma heap_run:
  "d < length (heap s) \<Longrightarrow> d < length (heap (run s ops)) \<and> heap (run s ops) ! d = heap s ! d"
proof (induction ops arbitrary: s)
  case Nil
  then show ?case by simp
next
  case (Cons a ops)
  from step_grows [of s a] obtain hs where hs: "heap (step s a) = heap s @ hs" by blast
  with Cons.prems have "d < length (heap (step s a))" "heap (step s a) ! d = heap s ! d"
    by (simp_all add: nth_append)
  with Cons.IH [of "step s a"] show ?case by simp
qed

lemma navigate_promise_run:
  assumes "handlers_bound s" "encodeURIComponent (u @ lit ''?p'') = Inr enc"
  shows "promises (run (snd (navigate u s)) ops) ! length (promises s)
         = event_outcome (first_event (length (xhrs s)) ops)"
  using navigate_attached [OF assms] by (rule attached_run)

lemma navigate_promise_thrown:
  assumes "encodeURIComponent (u @ lit ''?p'') = Inl err"
  shows "promises (run (snd (navigate u s)) ops) ! length (promises s) = Rejected err"
proof -
  let ?s' = "snd (navigate u s)"
  have "length (promises s) < length (promises ?s')"
    "promises ?s' ! length (promises s) = Rejected err"
    by (simp_all add: navigate_thrown [OF assms])
  from settled_run [OF this(1), of ops] this(2) show ?thesis by simp
qed

lemma single_display_simps [simp]:
  "single_display h Pending"
  "single_display h (Rejected e)"
  "single_display h (Fulfilled Undefined)"
  "single_display (h @ [PhysicalWebDisplay beacon_display_name]) (Fulfilled (Array [length h]))"
  by (simp_all add: single_display_def)

lemma single_display_grows: "single_display h v \<Longrightarrow> single_display (h @ hs) v"
  by (auto simp: single_display_def nth_append)

lemma single_display_settle:
  assumes "list_all (single_display h) (promises s)" "single_display h st"
  shows "list_all (single_display h) (promises (settle p st s))"
proof (cases "p < length (promises s) \<and> promises s ! p = Pending")
  case False
  with assms(1) show ?thesis by (auto simp: settle_def)
next
  case True
  have "set ((promises s)[p := st]) \<subseteq> insert st (set (promises s))"
    by (rule set_update_subset_insert)
  with assms have "list_all (single_display h) ((promises s)[p := st])"
    by (auto simp: list_all_iff)
  with True show ?thesis by (simp add: settle_def)
qed

lemma single_display_fire:
  assumes "list_all (single_display (heap s)) (promises s)"
  shows "list_all (single_display (heap s)) (promises (fire x ev s))"
proof -
  have "list_all (single_display (heap s)) (promises (call_handler h e (update_xhr x f s)))"
    for h e f
    using assms
    by (cases h) (simp_all add: resolve_def reject_def update_xhr_def single_display_settle)
  with assms show ?thesis
    by (simp add: fire_def Let_def update_xhr_def split: xhr_event.splits option.splits)
qed

lemma single_display_step:
  assumes "list_all (single_display (heap s)) (promises s)"
  shows "list_all (single_display (heap (step s a))) (promises (step s a))"
proof (cases a)
  case (Navigate d u)
  from assms show ?thesis unfolding Navigate
    by (cases u s rule: navigate_cases) simp_all
next
  case (Terminate d)
  from assms show ?thesis unfolding Terminate
    by (cases s rule: terminate_cases) simp_all
next
  case (XhrEvent x ev)
  from assms show ?thesis unfolding XhrEvent by (simp add: single_display_fire)
next
  case GetAvailableDisplays
  from assms have "list_all (single_display (heap s @ [PhysicalWebDisplay beacon_display_name]))
      (promises s)"
    by (auto simp: list_all_iff intro: single_display_grows)
  then show ?thesis unfolding GetAvailableDisplays by (simp add: getAvailableDisplays_eq)
next
  case MonitorIncomingControllers
  from step_grows [of s a] obtain hs where "heap (step s a) = heap s @ hs" by blast
  with assms show ?thesis unfolding MonitorIncomingControllers
    by (auto simp: list_all_iff intro: single_display_grows)
qed (use assms in \<open>simp_all add: display_createDataChannel_eq controller_createDataChannel_eq\<close>)

lemma single_display_run:
  "list_all (single_display (heap s)) (promises s) \<Longrightarrow>
   list_all (single_display (heap (run s ops))) (promises (run s ops))"
  by (induction ops arbitrary: s) (simp_all add: single_display_step)

lemma known_rejection_simps [simp]:
  "known_rejection Pending"
  "known_rejection (Fulfilled w)"
  "known_rejection (Rejected URIError)"
  "known_rejection (Rejected (DOMException m (lit ''OperationError'')))"
  by (simp_all add: known_rejection_def)

lemma known_rejection_settle:
  assumes "list_all known_rejection (promises s)" "known_rejection st"
  shows "list_all known_rejection (promises (settle p st s))"
proof (cases "p < length (promises s) \<and> promises s ! p = Pending")
  case False
  with assms(1) show ?thesis by (auto simp: settle_def)
next
  case True
  have "set ((promises s)[p := st]) \<subseteq> insert st (set (promises s))"
    by (rule set_update_subset_insert)
  with assms have "list_all known_rejection ((promises s)[p := st])"
    by (auto simp: list_all_iff)
  with True show ?thesis by (simp add: settle_def)
qed

lemma known_rejection_fire:
  assumes "list_all known_rejection (promises s)"
  shows "list_all known_rejection (promises (fire x ev s))"
proof -
  have "list_all known_rejection (promises (call_handler h e (update_xhr x f s)))" for h e f
    using assms
    by (cases h) (simp_all add: resolve_def reject_def update_xhr_def known_rejection_settle)
  with assms show ?thesis
    by (simp add: fire_def Let_def update_xhr_def split: xhr_event.splits option.splits)
qed

lemma known_rejection_step:
  assumes "list_all known_rejection (promises s)"
  shows "list_all known_rejection (promises (step s a))"
proof (cases a)
  case (Navigate d u)
  from assms show ?thesis unfolding Navigate
    by (cases u s rule: navigate_cases) simp_all
next
  case (Terminate d)
  from assms show ?thesis unfolding Terminate
    by (cases s rule: terminate_cases) simp_all
next
  case (XhrEvent x ev)
  from assms show ?thesis unfolding XhrEvent by (simp add: known_rejection_fire)
qed (use assms in \<open>simp_all add: getAvailableDisplays_eq display_createDataChannel_eq
    controller_createDataChannel_eq\<close>)

lemma known_rejection_run:
  "list_all known_rejection (promises s) \<Longrightarrow> list_all known_rejection (promises (run s ops))"
  by (induction ops arbitrary: s) (simp_all add: known_rejection_step)

lemma known_rejection_reachable:
  "list_all known_rejection (promises (run (initial_state q g) ops))"
  by (rule known_rejection_run) (simp add: initial_state_def)

section \<open>The display: navigate and terminate\<close>

text \<open>
  Claim C3. The strings \<^verbatim>\<open>encodeURIComponent\<close> accepts are those without an unpaired
  surrogate, and a URL string is one of them: a URL is a sequence of code points, none of
  which is a surrogate. For every such string \<open>u\<close>, and in every state of the page,
  \<^verbatim>\<open>navigate(u)\<close> issues exactly one request: a \<^verbatim>\<open>POST\<close> to
  \<^verbatim>\<open>http://localhost:3000/api/beacon\<close> whose \<^verbatim>\<open>Content-Type\<close> is
  \<^verbatim>\<open>application/x-www-form-urlencoded\<close> and whose body, \<^verbatim>\<open>action=start&url=\<close> followed by the
  encoding of \<open>u\<close> with \<^verbatim>\<open>?p\<close> appended, decodes to \<^verbatim>\<open>action=start\<close> and \<^verbatim>\<open>url\<close> = \<open>u\<close> followed
  by \<^verbatim>\<open>?p\<close>.
\<close>

theorem navigate_start_request:
  assumes "well_formed u"
  shows "(\<exists>enc. encodeURIComponent (u @ lit ''?p'') = Inr enc \<and>
            map req_body (issued s (snd (navigate u s))) = [lit ''action=start&url='' @ enc]) \<and>
         map req_method (issued s (snd (navigate u s))) = [lit ''POST''] \<and>
         map req_url (issued s (snd (navigate u s))) = [lit ''http://localhost:3000/api/beacon''] \<and>
         map (\<lambda>r. get_header (lit ''Content-Type'') (req_headers r))
           (issued s (snd (navigate u s)))
           = [Some (lit ''application/x-www-form-urlencoded'')] \<and>
         map (\<lambda>r. form_urlencoded_decode (req_body r)) (issued s (snd (navigate u s)))
           = [Some [(lit ''action'', lit ''start''), (lit ''url'', u @ lit ''?p'')]]"
proof -
  from assms obtain enc where enc: "encodeURIComponent (u @ lit ''?p'') = Inr enc"
    using encodeURIComponent_marker [of u] by blast
  then show ?thesis
    by (simp add: issued_navigate_sent [OF enc] start_body_decodes [OF enc])
qed

theorem navigate_start_request_witness:
  "well_formed (lit ''http://example.org/a b'') \<and>
   map req_method (issued (initial_state [] None)
       (snd (navigate (lit ''http://example.org/a b'') (initial_state [] None))))
     = [lit ''POST''] \<and>
   map req_body (issued (initial_state [] None)
       (snd (navigate (lit ''http://example.org/a b'') (initial_state [] None))))
     = [lit ''action=start&url=http%3A%2F%2Fexample.org%2Fa%20b%3Fp''] \<and>
   map (\<lambda>r. form_urlencoded_decode (req_body r)) (issued (initial_state [] None)
       (snd (navigate (lit ''http://example.org/a b'') (initial_state [] None))))
     = [Some [(lit ''action'', lit ''start''), (lit ''url'', lit ''http://example.org/a b?p'')]]"
proof -
  have wf: "well_formed (lit ''http://example.org/a b'')"
    by (simp add: lit_def is_leading_surrogate_def is_trailing_surrogate_def)
  have enc: "encodeURIComponent (lit ''http://example.org/a b'' @ lit ''?p'')
      = Inr (lit ''http%3A%2F%2Fexample.org%2Fa%20b%3Fp'')"
    by (simp add: encodeURIComponent_def CodePointAt_def is_leading_surrogate_def
        is_trailing_surrogate_def uriUnreserved_def utf8_octets_def percent_octet_def
        hex_digit_def lit_def)
  have body: "map req_body (issued (initial_state [] None)
       (snd (navigate (lit ''http://example.org/a b'') (initial_state [] None))))
     = [lit ''action=start&url=http%3A%2F%2Fexample.org%2Fa%20b%3Fp'']"
    unfolding issued_navigate_sent [OF enc] by (simp add: lit_def)
  have join: "lit ''http://example.org/a b'' @ lit ''?p'' = lit ''http://example.org/a b?p''"
    by (simp add: lit_def)
  from navigate_start_request [OF wf, of "initial_state [] None"] wf body
  show ?thesis unfolding join by simp
qed

text \<open>
  Claim C10. The requests \<^verbatim>\<open>navigate(u)\<close> issues are the same in any two states of the
  page: they depend on \<open>u\<close> alone. Each one is a \<^verbatim>\<open>POST\<close> to the beacon endpoint with the
  form-urlencoded content type.
\<close>

theorem navigate_request_depends_on_url_only:
  "issued s1 (snd (navigate u s1)) = issued s2 (snd (navigate u s2)) \<and>
   (\<forall>r\<in>set (issued s1 (snd (navigate u s1))).
      req_method r = lit ''POST'' \<and>
      req_url r = lit ''http://localhost:3000/api/beacon'' \<and>
      get_header (lit ''Content-Type'') (req_headers r)
        = Some (lit ''application/x-www-form-urlencoded''))"
proof (cases "encodeURIComponent (u @ lit ''?p'')")
  case (Inl err)
  then show ?thesis by (simp add: issued_navigate_thrown)
next
  case (Inr enc)
  then show ?thesis by (simp add: issued_navigate_sent)
qed

theorem navigate_request_depends_on_url_only_witness:
  "issued (initial_state [] None) (snd (navigate (lit ''http://a'') (initial_state [] None)))
   = issued (run (initial_state (lit ''?p'') (Some (lit ''x''))) [Navigate 0 (lit ''b''), Terminate 0])
       (snd (navigate (lit ''http://a'')
         (run (initial_state (lit ''?p'') (Some (lit ''x''))) [Navigate 0 (lit ''b''), Terminate 0]))) \<and>
   issued (initial_state [] None) (snd (navigate (lit ''http://a'') (initial_state [] None)))
   = [\<lparr>req_method = lit ''POST'', req_url = lit ''http://localhost:3000/api/beacon'',
       req_headers = [(lit ''Content-type'', lit ''application/x-www-form-urlencoded'')],
       req_body = lit ''action=start&url=http%3A%2F%2Fa%3Fp''\<rparr>]"
proof -
  have enc: "encodeURIComponent (lit ''http://a'' @ lit ''?p'') = Inr (lit ''http%3A%2F%2Fa%3Fp'')"
    by (simp add: encodeURIComponent_def CodePointAt_def is_leading_surrogate_def
        is_trailing_surrogate_def uriUnreserved_def utf8_octets_def percent_octet_def
        hex_digit_def lit_def)
  have "issued (initial_state [] None) (snd (navigate (lit ''http://a'') (initial_state [] None)))
   = [\<lparr>req_method = lit ''POST'', req_url = lit ''http://localhost:3000/api/beacon'',
       req_headers = [(lit ''Content-type'', lit ''application/x-www-form-urlencoded'')],
       req_body = lit ''action=start&url=http%3A%2F%2Fa%3Fp''\<rparr>]"
    unfolding issued_navigate_sent [OF enc]
    by (simp add: beacon_request_def beacon_endpoint_def lit_def)
  with navigate_request_depends_on_url_only [of "initial_state [] None" "lit ''http://a''"
      "run (initial_state (lit ''?p'') (Some (lit ''x''))) [Navigate 0 (lit ''b''), Terminate 0]"]
  show ?thesis by simp
qed

text \<open>
  Claim C1 asks \<^verbatim>\<open>terminate()\<close> to send \<^verbatim>\<open>action=stop\<close> with the URL of the preceding
  \<^verbatim>\<open>navigate\<close>. The source does not keep that URL: on a page without a global \<^verbatim>\<open>url\<close>,
  \<^verbatim>\<open>terminate()\<close> after \<^verbatim>\<open>navigate("http://example.org/")\<close> throws \<^verbatim>\<open>ReferenceError\<close> and
  sends nothing. On any page, what \<^verbatim>\<open>terminate\<close> returns and sends is the same whatever was
  navigated to before (\<open>terminate_ignores_navigate\<close>).
\<close>

theorem terminate_after_navigate_sends_nothing:
  "fst (terminate (snd (navigate (lit ''http://example.org/'') (initial_state [] None))))
     = Threw ReferenceError \<and>
   issued (snd (navigate (lit ''http://example.org/'') (initial_state [] None)))
     (snd (terminate (snd (navigate (lit ''http://example.org/'') (initial_state [] None)))))
     = []"
proof -
  have "global_url (snd (navigate (lit ''http://example.org/'') (initial_state [] None))) = None"
    by (simp add: initial_state_def)
  from terminate_unresolved [OF this] show ?thesis by (simp add: issued_def)
qed

section \<open>The awaitable of navigate\<close>

text \<open>
  Claim C6. Take any state the page can reach and a call \<^verbatim>\<open>navigate(u)\<close> in it that issued
  its request. If the first event of that request in the rest of the run is \<^verbatim>\<open>load\<close>, with
  whatever status code, the promise \<^verbatim>\<open>navigate\<close> returned is fulfilled with \<^verbatim>\<open>undefined\<close> at
  the end of the run.
\<close>

theorem navigate_resolves_on_load:
  fixes q g before after u status
  defines "s \<equiv> run (initial_state q g) before"
  defines "p \<equiv> length (promises s)"
  defines "x \<equiv> length (xhrs s)"
  assumes "issued s (snd (navigate u s)) \<noteq> []"
    and "first_event x after = Some (Load status)"
  shows "fst (navigate u s) = Returned (PromiseRef p) \<and>
         promises (run (snd (navigate u s)) after) ! p = Fulfilled Undefined"
proof (cases "encodeURIComponent (u @ lit ''?p'')")
  case (Inl err)
  with assms(4) show ?thesis by (simp add: issued_navigate_thrown)
next
  case (Inr enc)
  have "handlers_bound s" unfolding s_def by (rule handlers_bound_reachable)
  from navigate_promise_run [OF this Inr, of after] assms(5)
  show ?thesis by (simp add: event_outcome_def navigate_returns p_def x_def)
qed

theorem navigate_resolves_on_load_witness:
  "issued (run (initial_state [] None) [GetAvailableDisplays])
     (snd (navigate (lit ''a'') (run (initial_state [] None) [GetAvailableDisplays]))) \<noteq> [] \<and>
   first_event (length (xhrs (run (initial_state [] None) [GetAvailableDisplays])))
     [Terminate 0, XhrEvent 0 (Load 500), XhrEvent 0 (Error [])] = Some (Load 500) \<and>
   promises (run (snd (navigate (lit ''a'') (run (initial_state [] None) [GetAvailableDisplays])))
       [Terminate 0, XhrEvent 0 (Load 500), XhrEvent 0 (Error [])])
     ! length (promises (run (initial_state [] None) [GetAvailableDisplays])) = Fulfilled Undefined"
proof -
  have enc: "encodeURIComponent (lit ''a'' @ lit ''?p'') = Inr (lit ''a%3Fp'')"
    by (simp add: encodeURIComponent_def CodePointAt_def is_leading_surrogate_def
        is_trailing_surrogate_def uriUnreserved_def utf8_octets_def percent_octet_def
        hex_digit_def lit_def)
  have 1: "issued (run (initial_state [] None) [GetAvailableDisplays])
     (snd (navigate (lit ''a'') (run (initial_state [] None) [GetAvailableDisplays]))) \<noteq> []"
    by (simp add: issued_navigate_sent [OF enc])
  have 2: "first_event (length (xhrs (run (initial_state [] None) [GetAvailableDisplays])))
     [Terminate 0, XhrEvent 0 (Load 500), XhrEvent 0 (Error [])] = Some (Load 500)"
    by (simp add: getAvailableDisplays_eq initial_state_def)
  from navigate_resolves_on_load [OF 1 2] 1 2 show ?thesis by blast
qed

text \<open>
  What rejects the promise of \<^verbatim>\<open>navigate\<close>. In every state the page can reach,
  \<^verbatim>\<open>navigate(u)\<close> returns a new promise. For \<open>u\<close> without an unpaired surrogate, as every URL
  string is, that promise is rejected at the end of a run if and only if the first event
  of the request was \<^verbatim>\<open>error\<close>, and the error is then a \<^verbatim>\<open>DOMException\<close> named
  \<^verbatim>\<open>OperationError\<close> whose message is \<^verbatim>\<open>Unable to start Bluetooth beacon: \<close> followed by the
  serialised event. A string with an unpaired surrogate is no URL; \<^verbatim>\<open>encodeURIComponent\<close>
  throws on it, so that no request is issued and the promise is rejected with \<^verbatim>\<open>URIError\<close>,
  which is not what the comment above \<^verbatim>\<open>navigate\<close> announces. No promise of the page is ever
  rejected with anything else.
\<close>

lemma navigate_rejects_on_error_event:
  fixes q g before after u err
  defines "s \<equiv> run (initial_state q g) before"
  defines "p \<equiv> length (promises s)"
  defines "x \<equiv> length (xhrs s)"
  shows "fst (navigate u s) = Returned (PromiseRef p) \<and>
         (well_formed u \<longrightarrow>
            (promises (run (snd (navigate u s)) after) ! p = Rejected err \<longleftrightarrow>
             (\<exists>e. first_event x after = Some (Error e) \<and>
                  err = DOMException (lit ''Unable to start Bluetooth beacon: '' @ e)
                          (lit ''OperationError'')))) \<and>
         (\<not> well_formed u \<longrightarrow>
            issued s (snd (navigate u s)) = [] \<and>
            promises (run (snd (navigate u s)) after) ! p = Rejected URIError) \<and>
         (\<forall>v\<in>set (promises s). \<forall>e. v = Rejected e \<longrightarrow>
            e = URIError \<or> (\<exists>m. e = DOMException m (lit ''OperationError'')))"
proof -
  have bound: "handlers_bound s" unfolding s_def by (rule handlers_bound_reachable)
  have ret: "fst (navigate u s) = Returned (PromiseRef p)"
    unfolding p_def by (rule navigate_returns)
  have kinds: "\<forall>v\<in>set (promises s). \<forall>e. v = Rejected e \<longrightarrow>
      e = URIError \<or> (\<exists>m. e = DOMException m (lit ''OperationError''))"
    using known_rejection_reachable [of q g before]
    by (simp add: list_all_iff known_rejection_def s_def)
  have sent: "promises (run (snd (navigate u s)) after) ! p = Rejected err \<longleftrightarrow>
      (\<exists>e. first_event x after = Some (Error e) \<and>
           err = DOMException (lit ''Unable to start Bluetooth beacon: '' @ e)
                   (lit ''OperationError''))"
    if "well_formed u"
  proof -
    from that obtain enc where enc: "encodeURIComponent (u @ lit ''?p'') = Inr enc"
      using encodeURIComponent_marker [of u] by blast
    have "event_outcome (first_event x after) = Rejected err \<longleftrightarrow>
        (\<exists>e. first_event x after = Some (Error e) \<and>
             err = DOMException (lit ''Unable to start Bluetooth beacon: '' @ e)
                     (lit ''OperationError''))"
      by (auto simp: event_outcome_def split: option.splits xhr_event.splits)
    with navigate_promise_run [OF bound enc, of after]
    show ?thesis by (simp add: p_def x_def)
  qed
  have thrown: "issued s (snd (navigate u s)) = [] \<and>
      promises (run (snd (navigate u s)) after) ! p = Rejected URIError"
    if "\<not> well_formed u"
  proof -
    from that have e: "encodeURIComponent (u @ lit ''?p'') = Inl URIError"
      using encodeURIComponent_marker [of u] encodeURIComponent_cases [of "u @ lit ''?p''"]
      by blast
    from navigate_promise_thrown [OF e] issued_navigate_thrown [OF e]
    show ?thesis by (simp add: p_def)
  qed
  from ret kinds sent thrown show ?thesis by blast
qed

lemma navigate_rejects_on_error_event_example:
  "well_formed (lit ''a'') \<and>
   first_event (length (xhrs (run (initial_state [] None) [Navigate 0 [0xDC00]])))
     [XhrEvent 1 (Error (lit ''{}''))] = Some (Error (lit ''{}'')) \<and>
   promises (run (snd (navigate (lit ''a'') (run (initial_state [] None) [Navigate 0 [0xDC00]])))
       [XhrEvent 1 (Error (lit ''{}''))])
     ! length (promises (run (initial_state [] None) [Navigate 0 [0xDC00]]))
     = Rejected (DOMException (lit ''Unable to start Bluetooth beacon: '' @ lit ''{}'')
         (lit ''OperationError'')) \<and>
   \<not> well_formed [0xDC00] \<and>
   promises (run (snd (navigate [0xDC00] (run (initial_state [] None) [Navigate 0 [0xDC00]]))) [])
     ! length (promises (run (initial_state [] None) [Navigate 0 [0xDC00]])) = Rejected URIError \<and>
   Rejected URIError \<in> set (promises (run (initial_state [] None) [Navigate 0 [0xDC00]]))"
proof -
  have wf: "well_formed (lit ''a'')"
    by (simp add: lit_def is_leading_surrogate_def is_trailing_surrogate_def)
  have nwf: "\<not> well_formed [0xDC00]"
    by (simp add: is_leading_surrogate_def is_trailing_surrogate_def)
  have err: "encodeURIComponent ([0xDC00] @ lit ''?p'') = Inl URIError"
    by (simp add: encodeURIComponent_def CodePointAt_def is_leading_surrogate_def
        is_trailing_surrogate_def uriUnreserved_def lit_def)
  have run: "run (initial_state [] None) [Navigate 0 [0xDC00]]
      = snd (navigate [0xDC00] (initial_state [] None))"
    by simp
  have ev: "first_event (length (xhrs (run (initial_state [] None) [Navigate 0 [0xDC00]])))
      [XhrEvent 1 (Error (lit ''{}''))] = Some (Error (lit ''{}''))"
    unfolding run by (simp add: navigate_thrown [OF err] initial_state_def)
  have mem: "Rejected URIError \<in> set (promises (run (initial_state [] None) [Navigate 0 [0xDC00]]))"
    unfolding run by (simp add: navigate_thrown [OF err] initial_state_def)
  from navigate_rejects_on_error_event [of "lit ''a''" "[]" None "[Navigate 0 [0xDC00]]"
      "[XhrEvent 1 (Error (lit ''{}''))]"
      "DOMException (lit ''Unable to start Bluetooth beacon: '' @ lit ''{}'') (lit ''OperationError'')"]
    navigate_rejects_on_error_event [of "[0xDC00]" "[]" None "[Navigate 0 [0xDC00]]" "[]"]
    wf nwf ev mem
  show ?thesis by blast
qed

text \<open>
  Claim C5 holds of \<^verbatim>\<open>navigate\<close> on URL strings, as the lemma above shows, and allows the
  adapter no error but \<^verbatim>\<open>OperationError\<close>. The source produces another one: on a page
  without a global \<^verbatim>\<open>url\<close>, after \<^verbatim>\<open>navigate("http://example.org/")\<close> has been answered and
  its promise fulfilled, \<^verbatim>\<open>terminate()\<close> throws \<^verbatim>\<open>ReferenceError\<close>.
\<close>

theorem terminate_raises_ReferenceError:
  "promises (run (initial_state [] None)
       [Navigate 0 (lit ''http://example.org/''), XhrEvent 0 (Load 200)])
     = [Fulfilled Undefined] \<and>
   fst (terminate (run (initial_state [] None)
       [Navigate 0 (lit ''http://example.org/''), XhrEvent 0 (Load 200)]))
     = Threw ReferenceError"
proof -
  have enc: "encodeURIComponent (lit ''http://example.org/'' @ lit ''?p'')
      = Inr (lit ''http%3A%2F%2Fexample.org%2F%3Fp'')"
    by (simp add: encodeURIComponent_def CodePointAt_def is_leading_surrogate_def
        is_trailing_surrogate_def uriUnreserved_def utf8_octets_def percent_octet_def
        hex_digit_def lit_def)
  let ?s = "run (initial_state [] None)
      [Navigate 0 (lit ''http://example.org/''), XhrEvent 0 (Load 200)]"
  have p: "promises ?s = [Fulfilled Undefined]" and g: "global_url ?s = None"
    by (simp_all add: navigate_sent [OF enc] initial_state_def fire_def Let_def update_xhr_def
        start_xhr_def resolve_def settle_def)
  from terminate_unresolved [OF g] p show ?thesis by simp
qed

section \<open>Data channels\<close>

text \<open>
  Claim C4. In every state the page can reach, \<^verbatim>\<open>createDataChannel()\<close> of the display and
  of the remote controller returns a new promise, and after any further operations and
  events that promise is still pending.
\<close>

theorem createDataChannel_never_settles:
  fixes q g before after
  defines "s \<equiv> run (initial_state q g) before"
  defines "p \<equiv> length (promises s)"
  defines "s_display \<equiv> snd (display_createDataChannel s)"
  defines "s_controller \<equiv> snd (controller_createDataChannel s)"
  shows "fst (display_createDataChannel s) = Returned (PromiseRef p) \<and>
         p < length (promises (run s_display after)) \<and>
         promises (run s_display after) ! p = Pending \<and>
         fst (controller_createDataChannel s) = Returned (PromiseRef p) \<and>
         p < length (promises (run s_controller after)) \<and>
         promises (run s_controller after) ! p = Pending"
proof -
  let ?s' = "s\<lparr>promises := promises s @ [Pending], console := console s @ [no_data_channel]\<rparr>"
  have "handlers_bound s" unfolding s_def by (rule handlers_bound_reachable)
  then have "detached p ?s'" unfolding p_def by (rule fresh_promise_detached)
  from detached_run [OF this, of after]
  have "p < length (promises (run ?s' after))" and "promises (run ?s' after) ! p = Pending"
    by (simp_all add: detached_def p_def)
  then show ?thesis
    unfolding s_display_def s_controller_def
    by (simp add: display_createDataChannel_eq controller_createDataChannel_eq p_def)
qed

theorem createDataChannel_never_settles_witness:
  "promises (run (snd (display_createDataChannel
       (run (initial_state [] None) [Navigate 0 (lit ''a'')])))
     [XhrEvent 0 (Load 200), Terminate 0, GetAvailableDisplays, XhrEvent 1 (Error [])]) ! 1
     = Pending \<and>
   promises (run (snd (controller_createDataChannel
       (run (initial_state [] None) [Navigate 0 (lit ''a'')])))
     [XhrEvent 0 (Load 200), Terminate 0, GetAvailableDisplays, XhrEvent 1 (Error [])]) ! 1
     = Pending"
proof -
  have "encodeURIComponent (lit ''a'' @ lit ''?p'') = Inr (lit ''a%3Fp'')"
    by (simp add: encodeURIComponent_def CodePointAt_def is_leading_surrogate_def
        is_trailing_surrogate_def uriUnreserved_def utf8_octets_def percent_octet_def
        hex_digit_def lit_def)
  then have "length (promises (run (initial_state [] None) [Navigate 0 (lit ''a'')])) = 1"
    by (simp add: navigate_sent initial_state_def)
  with createDataChannel_never_settles [of "[]" None "[Navigate 0 (lit ''a'')]"
      "[XhrEvent 0 (Load 200), Terminate 0, GetAvailableDisplays, XhrEvent 1 (Error [])]"]
  show ?thesis by (simp del: run.simps)
qed

section \<open>The mechanism\<close>

text \<open>
  Claim C7. In every state, \<^verbatim>\<open>getAvailableDisplays()\<close> returns a new promise and allocates
  one new display at the end of the heap, named
  \<^verbatim>\<open>Broadcast the URL through a Physical Web beacon\<close>; after any further operations the
  promise is fulfilled with the list of that one display, and the display still has its
  name.
\<close>

theorem getAvailableDisplays_resolves:
  "fst (getAvailableDisplays s) = Returned (PromiseRef (length (promises s))) \<and>
   heap (snd (getAvailableDisplays s)) =
     heap s @ [PhysicalWebDisplay (lit ''Broadcast the URL through a Physical Web beacon'')] \<and>
   lit ''Broadcast the URL through a Physical Web beacon'' \<noteq> [] \<and>
   promises (run (snd (getAvailableDisplays s)) ops) ! length (promises s)
     = Fulfilled (Array [length (heap s)]) \<and>
   heap (run (snd (getAvailableDisplays s)) ops) ! length (heap s)
     = PhysicalWebDisplay (lit ''Broadcast the URL through a Physical Web beacon'')"
proof -
  let ?s' = "snd (getAvailableDisplays s)"
  have p: "length (promises s) < length (promises ?s')"
    "promises ?s' ! length (promises s) = Fulfilled (Array [length (heap s)])"
    and d: "length (heap s) < length (heap ?s')"
    "heap ?s' ! length (heap s) = PhysicalWebDisplay beacon_display_name"
    by (simp_all add: getAvailableDisplays_eq)
  have "promises (run ?s' ops) ! length (promises s) = Fulfilled (Array [length (heap s)])"
    using settled_run [OF p(1), of ops] p(2) by simp
  moreover have "heap (run ?s' ops) ! length (heap s) = PhysicalWebDisplay beacon_display_name"
    using heap_run [OF d(1), of ops] d(2) by simp
  moreover have "lit ''Broadcast the URL through a Physical Web beacon'' \<noteq> []"
    by (simp add: lit_def)
  ultimately show ?thesis
    by (simp add: getAvailableDisplays_eq beacon_display_name_def)
qed

theorem getAvailableDisplays_resolves_witness:
  "fst (getAvailableDisplays (initial_state [] None)) = Returned (PromiseRef 0) \<and>
   promises (run (snd (getAvailableDisplays (initial_state [] None)))
       [GetAvailableDisplays, XhrEvent 0 Abort]) ! 0
     = Fulfilled (Array [0]) \<and>
   heap (run (snd (getAvailableDisplays (initial_state [] None)))
       [GetAvailableDisplays, XhrEvent 0 Abort]) ! 0
     = PhysicalWebDisplay (lit ''Broadcast the URL through a Physical Web beacon'')"
  using getAvailableDisplays_resolves
    [of "initial_state [] None" "[GetAvailableDisplays, XhrEvent 0 Abort]"]
  by (simp add: initial_state_def)

text \<open>
  Claim C8. In every state the page can reach, a promise fulfilled with a list of displays
  holds a list of exactly one element, and that element is a display named
  \<^verbatim>\<open>Broadcast the URL through a Physical Web beacon\<close>: no advertised list ever holds more
  than one display, and all advertised lists have the same content.
\<close>

theorem advertised_list_single_display:
  "\<forall>v\<in>set (promises (run (initial_state q g) ops)). \<forall>ds. v = Fulfilled (Array ds) \<longrightarrow>
     (\<exists>d. ds = [d] \<and> d < length (heap (run (initial_state q g) ops)) \<and>
          heap (run (initial_state q g) ops) ! d
            = PhysicalWebDisplay (lit ''Broadcast the URL through a Physical Web beacon''))"
proof -
  have "list_all (single_display (heap (initial_state q g))) (promises (initial_state q g))"
    by (simp add: initial_state_def)
  then have "list_all (single_display (heap (run (initial_state q g) ops)))
      (promises (run (initial_state q g) ops))"
    by (rule single_display_run)
  then show ?thesis
    by (simp add: list_all_iff single_display_def beacon_display_name_def)
qed

theorem advertised_list_single_display_witness:
  "Fulfilled (Array [1]) \<in> set (promises (run (initial_state [] None)
       [GetAvailableDisplays, MonitorIncomingControllers, GetAvailableDisplays])) \<and>
   (1::nat) < length (heap (run (initial_state [] None)
       [GetAvailableDisplays, MonitorIncomingControllers, GetAvailableDisplays])) \<and>
   heap (run (initial_state [] None)
       [GetAvailableDisplays, MonitorIncomingControllers, GetAvailableDisplays]) ! 1
     = PhysicalWebDisplay (lit ''Broadcast the URL through a Physical Web beacon'')"
proof -
  have "Fulfilled (Array [1]) \<in> set (promises (run (initial_state [] None)
       [GetAvailableDisplays, MonitorIncomingControllers, GetAvailableDisplays]))"
    by (simp add: getAvailableDisplays_eq monitorIncomingControllers_def indexOf_def
        console_write_def initial_state_def lit_def)
  with advertised_list_single_display [of "[]" None
      "[GetAvailableDisplays, MonitorIncomingControllers, GetAvailableDisplays]"]
  show ?thesis by blast
qed

text \<open>
  The search string \<^verbatim>\<open>?x=1&p\<close> contains \<^verbatim>\<open>&p\<close>, and with a callback registered
  \<^verbatim>\<open>monitorIncomingControllers\<close> does not call it.
\<close>

theorem monitorIncomingControllers_ampersand_counterexample:
  "contains (lit ''?x=1&p'') (lit ''&p'') \<and>
   onincomingcontroller ((initial_state (lit ''?x=1&p'') None)\<lparr>onincomingcontroller := True\<rparr>) \<and>
   incoming (snd (monitorIncomingControllers
     ((initial_state (lit ''?x=1&p'') None)\<lparr>onincomingcontroller := True\<rparr>))) = []"
  by (simp add: contains_Cons contains_Nil monitorIncomingControllers_def indexOf_def
      initial_state_def lit_def console_write_def)

text \<open>
  Claim C2, with the marker the source tests. \<^verbatim>\<open>monitorIncomingControllers()\<close> calls the
  callback, once and with a remote controller constructed for the call, exactly when a
  callback is registered and the search string contains \<^verbatim>\<open>?p\<close>. When the search string
  does not contain \<^verbatim>\<open>?p\<close> it writes one line to the console and changes nothing else.
\<close>

theorem monitorIncomingControllers_marker:
  "incoming (snd (monitorIncomingControllers s)) =
     (if contains (location_search s) (lit ''?p'') \<and> onincomingcontroller s
      then incoming s @ [length (heap s)] else incoming s) \<and>
   heap (snd (monitorIncomingControllers s)) =
     (if contains (location_search s) (lit ''?p'')
      then heap s @ [PhysicalWebRemoteController] else heap s) \<and>
   (\<not> contains (location_search s) (lit ''?p'') \<longrightarrow>
      snd (monitorIncomingControllers s) =
        s\<lparr>console := console s @
           [lit ''not running in a receiving context created by Physical Web'']\<rparr>)"
proof (cases "contains (location_search s) (lit ''?p'')")
  case True
  then have "indexOf (location_search s) (lit ''?p'') \<noteq> - 1" by (simp add: indexOf_absent)
  from monitorIncomingControllers_present [OF this] True show ?thesis by simp
next
  case False
  then have "indexOf (location_search s) (lit ''?p'') = - 1" by (simp add: indexOf_absent)
  from monitorIncomingControllers_absent [OF this] False show ?thesis by simp
qed

theorem monitorIncomingControllers_marker_witness:
  "incoming (snd (monitorIncomingControllers
     ((initial_state (lit ''?p'') None)\<lparr>onincomingcontroller := True\<rparr>))) = [0] \<and>
   heap (snd (monitorIncomingControllers
     ((initial_state (lit ''?p'') None)\<lparr>onincomingcontroller := True\<rparr>)))
     = [PhysicalWebRemoteController] \<and>
   incoming (snd (monitorIncomingControllers
     ((initial_state (lit ''?x=1'') None)\<lparr>onincomingcontroller := True\<rparr>))) = [] \<and>
   heap (snd (monitorIncomingControllers
     ((initial_state (lit ''?x=1'') None)\<lparr>onincomingcontroller := True\<rparr>))) = [] \<and>
   \<not> contains (lit ''?x=1'') (lit ''?p'') \<and>
   snd (monitorIncomingControllers
     ((initial_state (lit ''?x=1'') None)\<lparr>onincomingcontroller := True\<rparr>)) =
     (initial_state (lit ''?x=1'') None)
       \<lparr>onincomingcontroller := True,
        console := [lit ''not running in a receiving context created by Physical Web'']\<rparr>"
  using monitorIncomingControllers_marker
      [of "(initial_state (lit ''?p'') None)\<lparr>onincomingcontroller := True\<rparr>"]
    monitorIncomingControllers_marker
      [of "(initial_state (lit ''?x=1'') None)\<lparr>onincomingcontroller := True\<rparr>"]
  by (simp add: contains_Cons contains_Nil initial_state_def lit_def)

text \<open>
  Claim C9. The test for a receiving context is a substring test for \<^verbatim>\<open>?p\<close>: whenever the
  search string begins with \<^verbatim>\<open>?p\<close>, whatever follows (\<^verbatim>\<open>?page=2\<close>, \<^verbatim>\<open>?photo=1\<close>),
  \<^verbatim>\<open>indexOf\<close> finds it at position 0 and \<^verbatim>\<open>monitorIncomingControllers\<close> calls the
  registered callback once, with a remote controller constructed for the call.
\<close>

theorem monitorIncomingControllers_substring_test:
  assumes "onincomingcontroller s" and "location_search s = lit ''?p'' @ rest"
  shows "indexOf (location_search s) (lit ''?p'') = 0 \<and>
         incoming (snd (monitorIncomingControllers s)) = incoming s @ [length (heap s)] \<and>
         heap (snd (monitorIncomingControllers s)) = heap s @ [PhysicalWebRemoteController]"
proof -
  have 0: "indexOf (location_search s) (lit ''?p'') = 0"
    unfolding assms(2) by (rule indexOf_prefix)
  then have "indexOf (location_search s) (lit ''?p'') \<noteq> - 1" by simp
  then have "monitorIncomingControllers s =
    (Returned Undefined,
     s\<lparr>console := console s @ [lit ''running in a receiving context created by Physical Web''],
       heap := heap s @ [PhysicalWebRemoteController],
       incoming := (if onincomingcontroller s then incoming s @ [length (heap s)]
                    else incoming s)\<rparr>)"
    by (rule monitorIncomingControllers_present)
  with assms(1) 0 show ?thesis by simp
qed

theorem monitorIncomingControllers_substring_test_witness:
  "onincomingcontroller ((initial_state (lit ''?page=2'') None)\<lparr>onincomingcontroller := True\<rparr>) \<and>
   location_search ((initial_state (lit ''?page=2'') None)\<lparr>onincomingcontroller := True\<rparr>)
     = lit ''?p'' @ lit ''age=2'' \<and>
   incoming (snd (monitorIncomingControllers
     ((initial_state (lit ''?page=2'') None)\<lparr>onincomingcontroller := True\<rparr>))) = [0] \<and>
   heap (snd (monitorIncomingControllers
     ((initial_state (lit ''?page=2'') None)\<lparr>onincomingcontroller := True\<rparr>)))
     = [PhysicalWebRemoteController]"
  using monitorIncomingControllers_substring_test
    [of "(initial_state (lit ''?page=2'') None)\<lparr>onincomingcontroller := True\<rparr>" "lit ''age=2''"]
  by (simp add: initial_state_def lit_def)

end
